theory Spec2Isabelle
  imports Complex_Main "HOL-Library.Log_Nat" "HOL-Library.List_Lexorder" "HOL-Library.Char_ord"
    "HOL-Library.AList"
begin

section \<open>Python arithmetic: binary64 floats\<close>

text \<open>
  Both scripts compute the new geometry in Python floats: \<^verbatim>\<open>img.width / img.height\<close> is the
  true division of two integers (correctly rounded to the nearest binary64 value), the product
  with an integer rounds once more, and \<^verbatim>\<open>int(...)\<close> truncates toward zero.  A float is modelled
  by the rational number it denotes.  \<open>fl\<close> rounds a rational to 53 significant bits, ties to
  even.  The exponent is not bounded: for image sides below \<open>2 ^ 31\<close> every quotient and product
  of the two scripts stays far inside the normal range of binary64, where the two agree.
\<close>

definition round_from :: "int \<Rightarrow> rat \<Rightarrow> int" where
  \<comment> \<open>\<open>z\<close> rounded to an integer, ties to even, given \<open>n = \<lfloor>z\<rfloor>\<close>\<close>
  "round_from n z =
     (if z - of_int n < 1 / 2 then n
      else if 1 / 2 < z - of_int n then n + 1
      else if even n then n else n + 1)"

definition round_half_even :: "rat \<Rightarrow> int" where
  "round_half_even z = round_from \<lfloor>z\<rfloor> z"

definition exponent_from :: "int \<Rightarrow> rat \<Rightarrow> int" where
  "exponent_from d x = (if 2 powi d \<le> x then d else d - 1)"

definition float_exponent :: "rat \<Rightarrow> int" where
  \<comment> \<open>for \<open>0 < x\<close>: the \<open>e\<close> with \<open>2 ^ e \<le> x < 2 ^ (e + 1)\<close>\<close>
  "float_exponent x =
     exponent_from (bitlen (fst (quotient_of x)) - bitlen (snd (quotient_of x))) x"

definition round_to_unit :: "rat \<Rightarrow> rat \<Rightarrow> rat" where
  \<comment> \<open>\<open>x\<close> rounded to a multiple of the unit in the last place \<open>u\<close>\<close>
  "round_to_unit u x = of_int (round_half_even (x / u)) * u"

definition fl :: "rat \<Rightarrow> rat" where
  "fl x = (if x = 0 then 0 else round_to_unit (2 powi (float_exponent \<bar>x\<bar> - 52)) x)"

definition truediv :: "int \<Rightarrow> int \<Rightarrow> string + rat" where
  \<comment> \<open>\<^verbatim>\<open>a / b\<close> on Python ints\<close>
  "truediv a b = (if b = 0 then Inl ''division by zero'' else Inr (fl (of_int a / of_int b)))"

definition fmul :: "rat \<Rightarrow> rat \<Rightarrow> rat" where
  \<comment> \<open>\<^verbatim>\<open>x * y\<close> on floats (an int operand is converted first, exactly for the constants used)\<close>
  "fmul x y = fl (x * y)"

definition int_of_float :: "rat \<Rightarrow> int" where
  \<comment> \<open>\<^verbatim>\<open>int(x)\<close>: truncation toward zero\<close>
  "int_of_float x = (if 0 \<le> x then \<lfloor>x\<rfloor> else \<lceil>x\<rceil>)"


section \<open>The image library\<close>

text \<open>
  Both scripts call Pillow for decoding, orientation, resizing and encoding.  The library is
  not part of the repository, so it is a parameter \<open>lib\<close> of every function: each operation
  either raises (\<open>Inl\<close> with the message of the exception) or returns, and what it does
  depends on its arguments only.  Of an image the model keeps what the scripts read,
  \<^verbatim>\<open>img.width\<close>, \<^verbatim>\<open>img.height\<close> and the EXIF tags, and the mode, which decides whether
  the JPEG encoder accepts the image.  \<^verbatim>\<open>exif_transpose\<close> may return \<open>None\<close>, the case the web
  resizer tests for.

  \<^verbatim>\<open>img.save(path, ...)\<close> opens the target for writing before it encodes.  The encoder
  therefore has three outcomes: the encoded bytes; an exception raised before the target is
  opened, which leaves the target alone; an exception raised after, with what had been written
  until then (often nothing).
\<close>

type_synonym bytes = "int list"

record image =
  width :: int
  height :: int
  mode :: string
  exif :: "(int \<times> int) list"

datatype resampling = LANCZOS

record save_params =
  quality :: int
  optimize :: bool
  exif_bytes :: "bytes option"

datatype saved = Encoded bytes | Refused string | Broken string bytes

record pil =
  Image_open :: "bytes \<Rightarrow> string + image"
  Image_copy :: "image \<Rightarrow> string + image"
  exif_transpose :: "image \<Rightarrow> string + image option"
  Image_resize :: "image \<Rightarrow> int \<times> int \<Rightarrow> resampling \<Rightarrow> string + image"
  Image_save :: "image \<Rightarrow> save_params \<Rightarrow> saved"

section \<open>The file system\<close>

text \<open>
  The three directories beside the scripts.  A directory that exists is the list of its
  entries (name and node, in directory order); a directory that does not exist is \<open>None\<close>.
  An entry is a regular file with its contents, or something that exists but cannot be opened:
  a subdirectory, a file without permission.  Such an entry carries the message of the error
  that opening it raises; a dangling link in \<^verbatim>\<open>images/\<close> is such an entry too.  Links in the
  two output directories are not modelled.  \<^verbatim>\<open>glob\<close> lists every entry whose
  name matches, whatever it is, and matches as on a case-sensitive file system, where a name
  matches at most one of the four patterns of the scripts; \<^verbatim>\<open>sorted\<close> orders the paths of one
  directory by name, code point by code point, which is the lexicographic order on \<open>string\<close>.
  A file that can be read can also be written, and a file can be created in every directory
  that exists: read-only files, a full disk and other failures of the device are not modelled.
\<close>

datatype dir = IMAGES_DIR | THUMBS_DIR | BACKUP_DIR

type_synonym path = "dir \<times> string"

datatype node = Regular bytes | Unreadable string

type_synonym fs = "dir \<Rightarrow> (string \<times> node) list option"

definition dir_exists :: "fs \<Rightarrow> dir \<Rightarrow> bool" where
  "dir_exists s d = (s d \<noteq> None)"

definition lookup :: "fs \<Rightarrow> path \<Rightarrow> node option" where
  "lookup s p = (case s (fst p) of None \<Rightarrow> None | Some al \<Rightarrow> map_of al (snd p))"

definition path_exists :: "fs \<Rightarrow> path \<Rightarrow> bool" where
  \<comment> \<open>\<^verbatim>\<open>path.exists()\<close>\<close>
  "path_exists s p = (lookup s p \<noteq> None)"

definition read_file :: "fs \<Rightarrow> path \<Rightarrow> bytes option" where
  \<comment> \<open>the contents of the regular file at \<open>p\<close>, if there is one\<close>
  "read_file s p = (case lookup s p of Some (Regular b) \<Rightarrow> Some b | _ \<Rightarrow> None)"

definition open_read :: "fs \<Rightarrow> path \<Rightarrow> string + bytes" where
  \<comment> \<open>opening \<open>p\<close> and reading it to the end\<close>
  "open_read s p =
     (case lookup s p of
        None \<Rightarrow> Inl ''No such file or directory''
      | Some (Unreadable e) \<Rightarrow> Inl e
      | Some (Regular b) \<Rightarrow> Inr b)"

definition write_file :: "fs \<Rightarrow> path \<Rightarrow> bytes \<Rightarrow> string + fs" where
  \<comment> \<open>opening \<open>p\<close> for writing, which creates or truncates it, and writing \<open>b\<close>\<close>
  "write_file s p b =
     (case s (fst p) of
        None \<Rightarrow> Inl ''No such file or directory''
      | Some al \<Rightarrow>
          (case map_of al (snd p) of
             Some (Unreadable e) \<Rightarrow> Inl e
           | _ \<Rightarrow> Inr (s(fst p := Some (AList.update (snd p) (Regular b) al)))))"

definition mkdir :: "fs \<Rightarrow> dir \<Rightarrow> fs" where
  \<comment> \<open>\<^verbatim>\<open>mkdir(exist_ok=True)\<close>\<close>
  "mkdir s d = (case s d of None \<Rightarrow> s(d := Some []) | Some al \<Rightarrow> s)"

definition endswith :: "string \<Rightarrow> string \<Rightarrow> bool" where
  "endswith name suffix =
     (length suffix \<le> length name \<and> drop (length name - length suffix) name = suffix)"

definition glob :: "fs \<Rightarrow> dir \<Rightarrow> string \<Rightarrow> string list" where
  \<comment> \<open>\<^verbatim>\<open>d.glob('*' + suffix)\<close>, matching case-sensitively\<close>
  "glob s d suffix =
     (case s d of None \<Rightarrow> [] | Some al \<Rightarrow> filter (\<lambda>name. endswith name suffix) (map fst al))"

definition jpg_files :: "fs \<Rightarrow> string list" where
  "jpg_files s = concat (map (glob s IMAGES_DIR) [''.jpg'', ''.jpeg'', ''.JPG'', ''.JPEG''])"

definition copy2 :: "fs \<Rightarrow> path \<Rightarrow> path \<Rightarrow> string + fs" where
  \<comment> \<open>\<^verbatim>\<open>shutil.copy2(src, dst)\<close>: the source is read first, then the target written\<close>
  "copy2 s src dst =
     (case open_read s src of Inl e \<Rightarrow> Inl e | Inr b \<Rightarrow> write_file s dst b)"

definition open_path :: "pil \<Rightarrow> fs \<Rightarrow> path \<Rightarrow> string + image" where
  \<comment> \<open>\<^verbatim>\<open>Image.open(path)\<close>\<close>
  "open_path lib s p =
     (case open_read s p of Inl e \<Rightarrow> Inl e | Inr b \<Rightarrow> Image_open lib b)"

definition save_path ::
  "pil \<Rightarrow> fs \<Rightarrow> image \<Rightarrow> path \<Rightarrow> save_params \<Rightarrow> string \<times> fs + fs" where
  \<comment> \<open>\<^verbatim>\<open>img.save(path, ...)\<close>.  \<open>Inl (e, s')\<close>: the exception \<open>e\<close>, raised in the state \<open>s'\<close>.
      A save that fails after it has opened a target that existed leaves what it had written;
      a target that it created is removed again.\<close>
  "save_path lib s img p params =
     (case Image_save lib img params of
        Refused e \<Rightarrow> Inl (e, s)
      | Encoded b \<Rightarrow>
          (case write_file s p b of Inl e \<Rightarrow> Inl (e, s) | Inr s' \<Rightarrow> Inr s')
      | Broken e partial \<Rightarrow>
          (case write_file s p partial of
             Inl e' \<Rightarrow> Inl (e', s)
           | Inr s' \<Rightarrow> Inl (e, if path_exists s p then s' else s)))"

section \<open>Console output\<close>

text \<open>Each constructor is one message of the scripts; the comment gives the printed text.\<close>

datatype event =
    Generated string  \<comment> \<open>\<^verbatim>\<open>Generated: {thumb_path.name}\<close>\<close>
  | Skipped string  \<comment> \<open>\<^verbatim>\<open>Skipped: {image_path.name} (thumbnail exists)\<close>\<close>
  | Error_processing string string  \<comment> \<open>\<^verbatim>\<open>Error processing {image_path.name}: {e}\<close>\<close>
  | No_files_found  \<comment> \<open>\<^verbatim>\<open>No JPG files found in {IMAGES_DIR}\<close>\<close>
  | Found nat  \<comment> \<open>\<^verbatim>\<open>Found {len(image_files)} image(s) to process\<close>\<close>
  | Done_thumbs  \<comment> \<open>\<^verbatim>\<open>Done!\<close>\<close>
  | Images_dir_missing  \<comment> \<open>\<^verbatim>\<open>Error: {IMAGES_DIR} does not exist\<close>\<close>
  | Settings int int  \<comment> \<open>\<^verbatim>\<open>Max dimension: {MAX_DIMENSION}px, Quality: {QUALITY}%\<close>\<close>
  | Creating_backup  \<comment> \<open>\<^verbatim>\<open>Creating backup in {BACKUP_DIR}...\<close>\<close>
  | Orientation_error string  \<comment> \<open>\<^verbatim>\<open>Error: Could not process orientation for {name}\<close>\<close>
  | Optimized string int int  \<comment> \<open>\<^verbatim>\<open>Optimized quality: {name}\<close>, \<^verbatim>\<open>Size: {w}x{h} (no resize needed)\<close>\<close>
  | Resized string int int int int  \<comment> \<open>\<^verbatim>\<open>Resized: {name}\<close>, \<^verbatim>\<open>{w}x{h} -> {new_w}x{new_h}\<close>\<close>
  | Blank  \<comment> \<open>\<^verbatim>\<open>print()\<close>\<close>
  | Done_web nat  \<comment> \<open>\<^verbatim>\<open>Done! Processed {n} image(s)\<close>, \<^verbatim>\<open>Original files backed up to: ...\<close>\<close>
  | Traceback string  \<comment> \<open>an exception nobody catches ends the script\<close>

section \<open>generate\_thumbs.py\<close>

definition THUMBNAIL_HEIGHT :: int where
  "THUMBNAIL_HEIGHT = 250"

definition thumbnail_size :: "image \<Rightarrow> int \<Rightarrow> string + int \<times> int" where
  \<comment> \<open>lines 34-35 and the size passed to \<^verbatim>\<open>resize\<close>\<close>
  "thumbnail_size img h =
     (case truediv (width img) (height img) of Inl e \<Rightarrow> Inl e
      | Inr aspect_ratio \<Rightarrow> Inr (int_of_float (fmul (of_int h) aspect_ratio), h))"

definition thumbnail_body :: "pil \<Rightarrow> fs \<Rightarrow> path \<Rightarrow> path \<Rightarrow> int \<Rightarrow> string \<times> fs + fs" where
  \<comment> \<open>the body of the \<^verbatim>\<open>try\<close>\<close>
  "thumbnail_body lib s image_path thumb_path h =
     (case open_path lib s image_path of Inl e \<Rightarrow> Inl (e, s)
      | Inr img \<Rightarrow>
     (case thumbnail_size img h of Inl e \<Rightarrow> Inl (e, s)
      | Inr new_size \<Rightarrow>
     (case Image_resize lib img new_size LANCZOS of Inl e \<Rightarrow> Inl (e, s)
      | Inr img_resized \<Rightarrow>
          save_path lib s img_resized thumb_path
            \<lparr>quality = 85, optimize = True, exif_bytes = None\<rparr>)))"

definition generate_thumbnail :: "pil \<Rightarrow> fs \<Rightarrow> path \<Rightarrow> path \<Rightarrow> int \<Rightarrow> fs \<times> event list" where
  "generate_thumbnail lib s image_path thumb_path h =
     (case thumbnail_body lib s image_path thumb_path h of
        Inl (e, s') \<Rightarrow> (s', [Error_processing (snd image_path) e])
      | Inr s' \<Rightarrow> (s', [Generated (snd thumb_path)]))"

fun thumbs_loop :: "pil \<Rightarrow> string list \<Rightarrow> fs \<Rightarrow> fs \<times> event list" where
  "thumbs_loop lib [] s = (s, [])"
| "thumbs_loop lib (name # rest) s =
     (if path_exists s (THUMBS_DIR, name)
      then (case thumbs_loop lib rest s of (s', evs) \<Rightarrow> (s', Skipped name # evs))
      else (case generate_thumbnail lib s (IMAGES_DIR, name) (THUMBS_DIR, name) THUMBNAIL_HEIGHT of
              (s1, ev) \<Rightarrow>
                (case thumbs_loop lib rest s1 of (s2, evs) \<Rightarrow> (s2, ev @ evs))))"

definition main_generate_thumbs :: "pil \<Rightarrow> fs \<Rightarrow> fs \<times> event list" where
  "main_generate_thumbs lib s =
     (let s1 = mkdir (mkdir s IMAGES_DIR) THUMBS_DIR;
          image_files = jpg_files s1
      in if image_files = [] then (s1, [No_files_found])
         else (case thumbs_loop lib (sort image_files) s1 of
                 (s2, evs) \<Rightarrow> (s2, Found (length image_files) # evs @ [Done_thumbs])))"

section \<open>resize\_for\_web.py\<close>

definition MAX_DIMENSION :: int where
  "MAX_DIMENSION = 3000"

definition QUALITY :: int where
  "QUALITY = 80"

definition web_size :: "int \<Rightarrow> int \<Rightarrow> int \<Rightarrow> string + int \<times> int" where
  \<comment> \<open>lines 64-69\<close>
  "web_size w h max_dimension =
     (if w > h
      then (case truediv h w of Inl e \<Rightarrow> Inl e
            | Inr r \<Rightarrow> Inr (max_dimension, int_of_float (fmul r (of_int max_dimension))))
      else (case truediv w h of Inl e \<Rightarrow> Inl e
            | Inr r \<Rightarrow> Inr (int_of_float (fmul r (of_int max_dimension)), max_dimension)))"

definition web_save :: "pil \<Rightarrow> fs \<Rightarrow> image \<Rightarrow> path \<Rightarrow> int \<Rightarrow> string \<times> fs + fs" where
  \<comment> \<open>\<^verbatim>\<open>save(image_path, quality=quality, optimize=True, exif=b"")\<close>\<close>
  "web_save lib s img image_path q =
     save_path lib s img image_path \<lparr>quality = q, optimize = True, exif_bytes = Some []\<rparr>"

definition resize_body ::
  "pil \<Rightarrow> fs \<Rightarrow> path \<Rightarrow> int \<Rightarrow> int \<Rightarrow> string \<times> fs + fs \<times> event list" where
  \<comment> \<open>the body of the \<^verbatim>\<open>try\<close>\<close>
  "resize_body lib s image_path max_dimension q =
     (case open_path lib s image_path of Inl e \<Rightarrow> Inl (e, s)
      | Inr opened \<Rightarrow>
     (case Image_copy lib opened of Inl e \<Rightarrow> Inl (e, s)
      | Inr copied \<Rightarrow>
     (case exif_transpose lib copied of Inl e \<Rightarrow> Inl (e, s)
      | Inr None \<Rightarrow> Inr (s, [Orientation_error (snd image_path)])
      | Inr (Some img) \<Rightarrow>
          if max (width img) (height img) \<le> max_dimension
          then (case web_save lib s img image_path q of Inl raised \<Rightarrow> Inl raised
                | Inr s' \<Rightarrow> Inr (s', [Optimized (snd image_path) (width img) (height img)]))
          else (case web_size (width img) (height img) max_dimension of Inl e \<Rightarrow> Inl (e, s)
                | Inr new_size \<Rightarrow>
               (case Image_resize lib img new_size LANCZOS of Inl e \<Rightarrow> Inl (e, s)
                | Inr img_resized \<Rightarrow>
               (case web_save lib s img_resized image_path q of Inl raised \<Rightarrow> Inl raised
                | Inr s' \<Rightarrow>
                    Inr (s', [Resized (snd image_path) (width img) (height img)
                                (fst new_size) (snd new_size)])))))))"

definition resize_for_web :: "pil \<Rightarrow> fs \<Rightarrow> path \<Rightarrow> int \<Rightarrow> int \<Rightarrow> fs \<times> event list" where
  "resize_for_web lib s image_path max_dimension q =
     (case resize_body lib s image_path max_dimension q of
        Inl (e, s') \<Rightarrow> (s', [Error_processing (snd image_path) e])
      | Inr r \<Rightarrow> r)"

definition backup_file :: "fs \<Rightarrow> string \<Rightarrow> string + fs" where
  \<comment> \<open>lines 108-110, outside any \<^verbatim>\<open>try\<close>\<close>
  "backup_file s name =
     (if \<not> path_exists s (BACKUP_DIR, name) then copy2 s (IMAGES_DIR, name) (BACKUP_DIR, name)
      else Inr s)"

fun web_loop :: "pil \<Rightarrow> string list \<Rightarrow> fs \<Rightarrow> fs \<times> event list \<times> string option" where
  "web_loop lib [] s = (s, [], None)"
| "web_loop lib (name # rest) s =
     (case backup_file s name of
        Inl e \<Rightarrow> (s, [], Some e)
      | Inr s1 \<Rightarrow>
          (case resize_for_web lib s1 (IMAGES_DIR, name) MAX_DIMENSION QUALITY of
             (s2, ev) \<Rightarrow>
               (case web_loop lib rest s2 of
                  (s3, evs, crash) \<Rightarrow> (s3, ev @ Blank # evs, crash))))"

definition main_resize_for_web :: "pil \<Rightarrow> fs \<Rightarrow> fs \<times> event list" where
  "main_resize_for_web lib s =
     (if \<not> dir_exists s IMAGES_DIR then (s, [Images_dir_missing])
      else let image_files = jpg_files s
           in if image_files = [] then (s, [No_files_found])
              else (case web_loop lib (sort image_files) (mkdir s BACKUP_DIR) of
                      (s', evs, crash) \<Rightarrow>
                        (s', [Found (length image_files), Settings MAX_DIMENSION QUALITY,
                              Creating_backup] @ evs @
                             (case crash of None \<Rightarrow> [Done_web (length image_files)]
                              | Some e \<Rightarrow> [Traceback e]))))"

section \<open>A stand-in library\<close>

text \<open>
  To run the scripts on concrete inputs the library needs an instance.  \<open>pillow\<close> follows the
  documented behaviour of Pillow on the attributes kept here, over a toy file format.  A JPEG
  file is the marker \<open>255, 216\<close>, then width, height and quality, then the EXIF tags as
  (tag, value) pairs; it decodes to mode RGB.  A PNG file is the marker \<open>137, 80\<close>, then width
  and height; it decodes to mode RGBA, which the JPEG encoder refuses once the target is open.
  Tag 274 is the orientation; values 5 to 8 exchange width and height.  A size with a side
  below 1 is refused by \<^verbatim>\<open>resize\<close>.
\<close>

fun decode_exif :: "bytes \<Rightarrow> (int \<times> int) list option" where
  "decode_exif [] = Some []"
| "decode_exif [t] = None"
| "decode_exif (t # v # r) = map_option ((#) (t, v)) (decode_exif r)"

definition encode_exif :: "(int \<times> int) list \<Rightarrow> bytes" where
  "encode_exif ex = concat (map (\<lambda>(t, v). [t, v]) ex)"

definition pillow_open :: "bytes \<Rightarrow> string + image" where
  "pillow_open b =
     (if 5 \<le> length b \<and> take 2 b = [255, 216]
      then (case decode_exif (drop 5 b) of
              None \<Rightarrow> Inl ''cannot identify image file''
            | Some ex \<Rightarrow> Inr \<lparr>width = b ! 2, height = b ! 3, mode = ''RGB'', exif = ex\<rparr>)
      else if length b = 4 \<and> take 2 b = [137, 80]
      then Inr \<lparr>width = b ! 2, height = b ! 3, mode = ''RGBA'', exif = []\<rparr>
      else Inl ''cannot identify image file'')"

definition pillow_exif_transpose :: "image \<Rightarrow> string + image option" where
  "pillow_exif_transpose img =
     (case map_of (exif img) 274 of
        None \<Rightarrow> Inr (Some img)
      | Some orientation \<Rightarrow>
          if orientation \<in> {5, 6, 7, 8}
          then Inr (Some \<lparr>width = height img, height = width img, mode = mode img,
                           exif = filter (\<lambda>tv. fst tv \<noteq> 274) (exif img)\<rparr>)
          else if orientation \<in> {2, 3, 4}
          then Inr (Some (img\<lparr>exif := filter (\<lambda>tv. fst tv \<noteq> 274) (exif img)\<rparr>))
          else Inr (Some img))"

definition pillow_resize :: "image \<Rightarrow> int \<times> int \<Rightarrow> resampling \<Rightarrow> string + image" where
  "pillow_resize img new_size resample =
     (if fst new_size \<le> 0 \<or> snd new_size \<le> 0 then Inl ''height and width must be > 0''
      else Inr (img\<lparr>width := fst new_size, height := snd new_size\<rparr>))"

definition pillow_save :: "image \<Rightarrow> save_params \<Rightarrow> saved" where
  "pillow_save img params =
     (if mode img = ''RGBA'' then Broken ''cannot write mode RGBA as JPEG'' []
      else Encoded ([255, 216, width img, height img, quality params] @
                    (case exif_bytes params of None \<Rightarrow> [] | Some e \<Rightarrow> e)))"

definition pillow :: pil where
  "pillow = \<lparr>Image_open = pillow_open, Image_copy = Inr, exif_transpose = pillow_exif_transpose,
              Image_resize = pillow_resize, Image_save = pillow_save\<rparr>"

definition jpeg :: "int \<Rightarrow> int \<Rightarrow> (int \<times> int) list \<Rightarrow> bytes" where
  \<comment> \<open>a JPEG file of the toy format, at quality 95\<close>
  "jpeg w h ex = [255, 216, w, h, 95] @ encode_exif ex"

definition png :: "int \<Rightarrow> int \<Rightarrow> bytes" where
  \<comment> \<open>a PNG file of the toy format\<close>
  "png w h = [137, 80, w, h]"

definition no_dirs :: fs where
  "no_dirs = (\<lambda>d. None)"

definition example_fs :: fs where
  "example_fs = no_dirs(IMAGES_DIR := Some
     [(''b.jpg'', Regular (jpeg 4000 3000 [(274, 6)])), (''a.JPG'', Regular (jpeg 1000 1500 [])),
      (''notes.txt'', Regular [1, 2]), (''bad.jpeg'', Regular [0]),
      (''tall.jpg'', Regular (jpeg 3 1000 []))])"

definition ready_fs :: fs where
  \<comment> \<open>the same with an empty \<^verbatim>\<open>thumbs/\<close>\<close>
  "ready_fs = example_fs(THUMBS_DIR := Some [])"

definition empty_source :: fs where
  "empty_source = no_dirs(IMAGES_DIR := Some [(''notes.txt'', Regular [1, 2])])"

definition done_fs :: fs where
  "done_fs = no_dirs(IMAGES_DIR := Some [(''a.JPG'', Regular (jpeg 1000 1500 []))],
                     THUMBS_DIR := Some [(''a.JPG'', Regular [9, 9])])"

definition backed_fs :: fs where
  "backed_fs = example_fs(BACKUP_DIR := Some [(''a.JPG'', Regular [7, 7])])"

definition wide_fs :: fs where
  \<comment> \<open>a panorama of 5000 by 1\<close>
  "wide_fs = no_dirs(IMAGES_DIR := Some [(''wide.jpg'', Regular (jpeg 5000 1 []))])"

definition png_fs :: fs where
  \<comment> \<open>a PNG of 400 by 300 with transparency, named as a JPEG\<close>
  "png_fs = no_dirs(IMAGES_DIR := Some [(''x.jpg'', Regular (png 400 300))])"



fun reported :: "event \<Rightarrow> string option" where
  \<comment> \<open>the file a per-file status message is about\<close>
  "reported (Generated name) = Some name"
| "reported (Skipped name) = Some name"
| "reported (Error_processing name e) = Some name"
| "reported (Orientation_error name) = Some name"
| "reported (Optimized name w h) = Some name"
| "reported (Resized name w h nw nh) = Some name"
| "reported _ = None"

section \<open>Rounding to binary64\<close>

text \<open>
  The facts about \<open>fl\<close> that the geometry needs: the exponent brackets its argument, the
  relative error of one rounding is at most \<open>2 ^ -53\<close>, and rounding never crosses an integer
  below \<open>2 ^ 53\<close>.  From these, the truncated product \<open>int(H * (a / b))\<close> lies between
  \<open>H * a / b - 1\<close> and \<open>H * a / b\<close>.
\<close>

lemma round_from_cases: "round_from n z = n \<or> round_from n z = n + 1"
  by (simp add: round_from_def)

lemma round_half_even_lower: "z - 1 / 2 \<le> of_int (round_half_even z)"
proof -
  define n where "n = \<lfloor>z\<rfloor>"
  have "z < of_int n + 1" unfolding n_def by linarith
  then show ?thesis
    unfolding round_half_even_def round_from_def n_def [symmetric] by auto
qed

lemma round_half_even_upper: "of_int (round_half_even z) \<le> z + 1 / 2"
proof -
  define n where "n = \<lfloor>z\<rfloor>"
  have "of_int n \<le> z" unfolding n_def by simp
  then show ?thesis
    unfolding round_half_even_def round_from_def n_def [symmetric] by auto
qed

lemma round_half_even_ge_int:
  assumes "of_int k \<le> z"
  shows "k \<le> round_half_even z"
proof -
  have "k \<le> \<lfloor>z\<rfloor>" using assms by (simp add: le_floor_iff)
  then show ?thesis
    using round_from_cases [of "\<lfloor>z\<rfloor>" z] unfolding round_half_even_def by auto
qed

lemma round_half_even_le_int:
  assumes "z \<le> of_int k"
  shows "round_half_even z \<le> k"
proof (cases "z = of_int \<lfloor>z\<rfloor>")
  case True
  then have "z - of_int \<lfloor>z\<rfloor> = 0" by simp
  then have "round_half_even z = \<lfloor>z\<rfloor>"
    unfolding round_half_even_def round_from_def by simp
  moreover have "\<lfloor>z\<rfloor> \<le> k" using assms by (simp add: floor_le_iff) 
  ultimately show ?thesis by simp
next
  case False
  then have "of_int \<lfloor>z\<rfloor> < z" using of_int_floor_le [of z] by linarith
  then have "of_int \<lfloor>z\<rfloor> < (of_int k :: rat)" using assms by linarith
  then have "\<lfloor>z\<rfloor> + 1 \<le> k" by simp
  then show ?thesis
    using round_from_cases [of "\<lfloor>z\<rfloor>" z] unfolding round_half_even_def by auto
qed

lemma powi_diff_nat: "(2::rat) powi (int m - int n) = 2 ^ m / 2 ^ n"
  by (simp add: power_int_diff)

lemma float_exponent_bounds:
  assumes "0 < x"
  shows "2 powi float_exponent x \<le> x \<and> x < 2 powi (float_exponent x + 1)"
proof -
  obtain a b where q: "quotient_of x = (a, b)" by (cases "quotient_of x")
  have b: "0 < b" using q by (rule quotient_of_denom_pos)
  have x: "x = of_int a / of_int b" using q by (rule quotient_of_div)
  have a: "0 < a" using assms b unfolding x by (simp add: zero_less_divide_iff)
  define A where "A = nat (bitlen a)"
  define B where "B = nat (bitlen b)"
  have la: "bitlen a = int A" and lb: "bitlen b = int B"
    unfolding A_def B_def by (simp_all add: bitlen_nonneg)
  have A1: "1 \<le> A" and B1: "1 \<le> B"
  proof -
    have "bitlen a \<noteq> 0" "bitlen b \<noteq> 0"
      using a b by (simp_all add: bitlen_eq_zero_iff)
    then show "1 \<le> A" "1 \<le> B" unfolding la lb by simp_all
  qed
  from bitlen_bounds [OF a] have "2 ^ (A - 1) \<le> a" "a < 2 ^ A"
    unfolding la using A1 by (simp_all add: nat_diff_distrib)
  then have ra: "(2::rat) ^ (A - 1) \<le> of_int a" "of_int a < (2::rat) ^ A"
    by (metis of_int_le_iff of_int_numeral of_int_power, metis of_int_less_iff of_int_numeral of_int_power)
  from bitlen_bounds [OF b] have "2 ^ (B - 1) \<le> b" "b < 2 ^ B"
    unfolding lb using B1 by (simp_all add: nat_diff_distrib)
  then have rb: "(2::rat) ^ (B - 1) \<le> of_int b" "of_int b < (2::rat) ^ B"
    by (metis of_int_le_iff of_int_numeral of_int_power, metis of_int_less_iff of_int_numeral of_int_power)
  have bpos: "(0::rat) < of_int b" using b by simp
  define d where "d = int A - int B"
  have fe: "float_exponent x = exponent_from d x"
    by (simp add: float_exponent_def q d_def la lb)
  have up: "x < 2 powi (d + 1)"
  proof -
    have "d + 1 = int A - int (B - 1)" unfolding d_def using B1 by simp
    then have "(2::rat) powi (d + 1) = 2 ^ A / 2 ^ (B - 1)" by (simp only: powi_diff_nat)
    moreover have "of_int a / of_int b < (2::rat) ^ A / 2 ^ (B - 1)"
      using ra rb bpos a by (intro frac_less) simp_all
    ultimately show ?thesis unfolding x by simp
  qed
  have lo: "2 powi (d - 1) \<le> x"
  proof -
    have "d - 1 = int (A - 1) - int B" unfolding d_def using A1 by simp
    then have "(2::rat) powi (d - 1) = 2 ^ (A - 1) / 2 ^ B" by (simp only: powi_diff_nat)
    moreover have "(2::rat) ^ (A - 1) / 2 ^ B \<le> of_int a / of_int b"
      using ra rb bpos a by (intro frac_le) simp_all
    ultimately show ?thesis unfolding x by simp
  qed
  show ?thesis
  proof (cases "2 powi d \<le> x")
    case True
    then show ?thesis using up unfolding fe exponent_from_def by simp
  next
    case False
    then show ?thesis using lo unfolding fe exponent_from_def by simp
  qed
qed

lemma powi_split: "(2::rat) powi e = 2 powi (e - 52) * 2 ^ 52"
proof -
  have "(2::rat) powi e = 2 powi ((e - 52) + 52)" by simp
  also have "\<dots> = 2 powi (e - 52) * 2 powi 52" by (rule power_int_add) simp
  finally show ?thesis by simp
qed

lemma fl_pos_unfold:
  assumes "0 < x"
  shows "fl x = of_int (round_half_even (x / 2 powi (float_exponent x - 52))) * 2 powi (float_exponent x - 52)"
  using assms by (simp add: fl_def round_to_unit_def)

lemma fl_upper:
  assumes "0 < x"
  shows "fl x * 2 ^ 53 \<le> x * (2 ^ 53 + 1)"
proof -
  define u :: rat where "u = 2 powi (float_exponent x - 52)"
  have u: "0 < u" unfolding u_def by simp
  have "u * 2 ^ 52 \<le> x"
    using float_exponent_bounds [OF assms] powi_split [of "float_exponent x"] unfolding u_def by simp
  then have ux: "u * 2 ^ 53 \<le> x * 2" by simp
  have "of_int (round_half_even (x / u)) \<le> x / u + 1 / 2" by (rule round_half_even_upper)
  then have "of_int (round_half_even (x / u)) * u \<le> (x / u + 1 / 2) * u"
    using u by (simp only: mult_le_cancel_right_pos)
  also have "\<dots> = x + u / 2" using u by (simp add: field_simps)
  finally have "fl x \<le> x + u / 2" unfolding fl_pos_unfold [OF assms] u_def .
  then have "fl x * 2 ^ 53 \<le> x * 2 ^ 53 + u * 2 ^ 53 / 2" by (simp add: field_simps)
  also have "\<dots> \<le> x * 2 ^ 53 + x" using ux by simp
  finally show ?thesis by (simp add: algebra_simps)
qed

lemma fl_lower:
  assumes "0 < x"
  shows "x * (2 ^ 53 - 1) \<le> fl x * 2 ^ 53"
proof -
  define u :: rat where "u = 2 powi (float_exponent x - 52)"
  have u: "0 < u" unfolding u_def by simp
  have "u * 2 ^ 52 \<le> x"
    using float_exponent_bounds [OF assms] powi_split [of "float_exponent x"] unfolding u_def by simp
  then have ux: "u * 2 ^ 53 \<le> x * 2" by simp
  have "x / u - 1 / 2 \<le> of_int (round_half_even (x / u))" by (rule round_half_even_lower)
  then have "(x / u - 1 / 2) * u \<le> of_int (round_half_even (x / u)) * u"
    using u by (simp only: mult_le_cancel_right_pos)
  moreover have "(x / u - 1 / 2) * u = x - u / 2" using u by (simp add: field_simps)
  ultimately have "x - u / 2 \<le> fl x" unfolding fl_pos_unfold [OF assms] u_def by simp
  then have "x * 2 ^ 53 - u * 2 ^ 53 / 2 \<le> fl x * 2 ^ 53" by (simp add: field_simps)
  moreover have "x * 2 ^ 53 - x \<le> x * 2 ^ 53 - u * 2 ^ 53 / 2" using ux by simp
  ultimately show ?thesis by (simp add: algebra_simps)
qed

lemma fl_pos:
  assumes "0 < x"
  shows "0 < fl x"
proof -
  have "0 < x * (2 ^ 53 - 1)" using assms by simp
  then have "0 < fl x * 2 ^ 53" using fl_lower [OF assms] by linarith
  then show ?thesis by (simp add: zero_less_mult_iff)
qed

lemma float_exponent_le_52:
  assumes "0 < x" "x < 2 ^ 53"
  shows "float_exponent x \<le> 52"
proof (rule ccontr)
  assume "\<not> float_exponent x \<le> 52"
  then have "53 \<le> float_exponent x" by simp
  then have "(2::rat) powi 53 \<le> 2 powi float_exponent x"
    by (intro power_int_increasing) simp_all
  then show False using float_exponent_bounds [OF assms(1)] assms(2) by simp
qed

lemma scaled_int:
  assumes "e \<le> 52"
  shows "of_int m / 2 powi (e - 52) = (of_int (m * 2 ^ nat (52 - e)) :: rat)"
proof -
  have "(2::rat) powi (e - 52) = inverse (2 powi (52 - e))"
    using power_int_minus [of "2::rat" "52 - e"] by simp
  also have "(2::rat) powi (52 - e) = 2 ^ nat (52 - e)"
    using assms by (simp add: power_int_def)
  finally show ?thesis by (simp add: field_simps)
qed

lemma fl_ge_int:
  assumes "0 < x" "x < 2 ^ 53" "of_int m \<le> x"
  shows "of_int m \<le> fl x"
proof -
  define u :: rat where "u = 2 powi (float_exponent x - 52)"
  have u: "0 < u" unfolding u_def by simp
  have e: "float_exponent x \<le> 52" using assms(1,2) by (rule float_exponent_le_52)
  define k where "k = m * 2 ^ nat (52 - float_exponent x)"
  have mk: "of_int m / u = (of_int k :: rat)" unfolding u_def k_def using e by (rule scaled_int)
  have "of_int m / u \<le> x / u" using assms(3) u by (simp add: divide_le_cancel)
  then have "k \<le> round_half_even (x / u)" unfolding mk by (rule round_half_even_ge_int)
  then have "(of_int k :: rat) \<le> of_int (round_half_even (x / u))" by simp
  then have "of_int k * u \<le> of_int (round_half_even (x / u)) * u"
    using u by (simp only: mult_le_cancel_right_pos)
  moreover have "of_int k * u = of_int m" using mk u by (simp add: field_simps)
  ultimately show ?thesis unfolding fl_pos_unfold [OF assms(1)] u_def by simp
qed

lemma int_of_float_nonneg: "0 \<le> x \<Longrightarrow> int_of_float x = \<lfloor>x\<rfloor>"
  by (simp add: int_of_float_def)

lemma fl_zero: "fl 0 = 0"
  by (simp add: fl_def)

lemma quotient_scaled:
  fixes q :: rat
  assumes "0 < b" "q * E \<le> of_int a / of_int b * F"
  shows "q * E * of_int b \<le> of_int a * F"
proof -
  have b: "(0::rat) < of_int b" using assms(1) by simp
  have "q * E * of_int b \<le> of_int a / of_int b * F * of_int b"
    using assms(2) b by (simp only: mult_le_cancel_right_pos)
  also have "\<dots> = of_int a * F" using b by simp
  finally show ?thesis .
qed

lemma quotient_scaled':
  fixes q :: rat
  assumes "0 < b" "of_int a / of_int b * F \<le> q * E"
  shows "of_int a * F \<le> q * E * of_int b"
proof -
  have b: "(0::rat) < of_int b" using assms(1) by simp
  have "of_int a / of_int b * F * of_int b \<le> q * E * of_int b"
    using assms(2) b by (simp only: mult_le_cancel_right_pos)
  moreover have "of_int a / of_int b * F * of_int b = of_int a * F" using b by simp
  ultimately show ?thesis by simp
qed

lemma scale_trunc_upper_least:
  assumes a: "0 < a" and b: "0 < b" and H: "0 < H"
    and small: "3 * (m * b) \<le> 2 ^ 53" and m: "H * a < m * b"
  shows "fmul (of_int H) (fl (of_int a / of_int b)) < of_int m"
proof -
  define E :: rat where "E = 2 ^ 53"
  define q where "q = fl (of_int a / of_int b)"
  define y where "y = fl (of_int H * q)"
  have x0: "(0::rat) < of_int a / of_int b" using a b by simp
  have q0: "0 < q" unfolding q_def using x0 by (rule fl_pos)
  have p0: "0 < of_int H * q" using H q0 by simp
  have E0: "0 < E" unfolding E_def by simp
  have "q * E \<le> of_int a / of_int b * (E + 1)"
    unfolding q_def E_def using x0 by (rule fl_upper)
  then have qb: "q * E * of_int b \<le> of_int a * (E + 1)" using b by (intro quotient_scaled)
  have yE: "y * E \<le> of_int H * q * (E + 1)"
    unfolding y_def E_def using p0 by (rule fl_upper)
  have "y * E * (E * of_int b) \<le> of_int H * q * (E + 1) * (E * of_int b)"
    using yE E0 b by (intro mult_right_mono) simp_all
  also have "\<dots> = (of_int H * (E + 1)) * (q * E * of_int b)" by (simp add: algebra_simps)
  also have "\<dots> \<le> (of_int H * (E + 1)) * (of_int a * (E + 1))"
    using qb H E0 by (intro mult_left_mono) simp_all
  also have "\<dots> = of_int (H * a) * ((E + 1) * (E + 1))" by (simp add: algebra_simps)
  also have "\<dots> \<le> of_int (m * b - 1) * ((E + 1) * (E + 1))"
  proof -
    have "H * a \<le> m * b - 1" using m by simp
    then have "(of_int (H * a) :: rat) \<le> of_int (m * b - 1)" by (simp only: of_int_le_iff)
    then show ?thesis using E0 by (intro mult_right_mono) simp_all
  qed
  also have "\<dots> < of_int (m * b) * (E * E)"
  proof -
    have "(3::rat) * of_int (m * b) \<le> 2 ^ 53"
      using small by (metis of_int_le_iff of_int_mult of_int_numeral of_int_power)
    then show ?thesis unfolding E_def by (simp add: algebra_simps)
  qed
  finally have "y * (E * E * of_int b) < of_int m * (E * E * of_int b)"
    by (simp add: algebra_simps)
  moreover have "0 < E * E * of_int b" using E0 b by simp
  ultimately have "y < of_int m" by (simp only: mult_less_cancel_right_pos)
  then show ?thesis unfolding y_def q_def fmul_def .
qed

lemma scale_ge:
  assumes a: "0 < a" and b: "0 < b" and H: "0 < H"
    and small: "3 * (H * a) \<le> 2 ^ 53" and m: "m * b < H * a"
  shows "of_int m \<le> fmul (of_int H) (fl (of_int a / of_int b))"
proof -
  define E :: rat where "E = 2 ^ 53"
  define q where "q = fl (of_int a / of_int b)"
  have x0: "(0::rat) < of_int a / of_int b" using a b by simp
  have q0: "0 < q" unfolding q_def using x0 by (rule fl_pos)
  have p0: "0 < of_int H * q" using H q0 by simp
  have E0: "0 < E" unfolding E_def by simp
  have Eb: "0 < E * of_int b" using E0 b by simp
  have Ha: "(3::rat) * of_int (H * a) \<le> 2 ^ 53"
    using small by (metis of_int_le_iff of_int_mult of_int_numeral of_int_power)
  have "of_int a / of_int b * (E - 1) \<le> q * E"
    unfolding q_def E_def using x0 by (rule fl_lower)
  then have qb: "of_int a * (E - 1) \<le> q * E * of_int b" using b by (intro quotient_scaled')
  have "q * E \<le> of_int a / of_int b * (E + 1)"
    unfolding q_def E_def using x0 by (rule fl_upper)
  then have qb': "q * E * of_int b \<le> of_int a * (E + 1)" using b by (intro quotient_scaled)
  have ge: "of_int m \<le> of_int H * q"
  proof -
    have "m * b + 1 \<le> H * a" using m by simp
    then have le: "(of_int (m * b) :: rat) + 1 \<le> of_int (H * a)"
      by (metis of_int_le_iff of_int_add of_int_1)
    have "of_int (m * b) * E \<le> (of_int (m * b) + 1) * (E - 1)"
      using le Ha unfolding E_def by (simp add: algebra_simps)
    also have "\<dots> \<le> of_int (H * a) * (E - 1)"
      using le unfolding E_def by (intro mult_right_mono) simp_all
    also have "\<dots> = of_int H * (of_int a * (E - 1))" by simp
    also have "\<dots> \<le> of_int H * (q * E * of_int b)"
      using qb H by (intro mult_left_mono) simp_all
    finally have "of_int m * (E * of_int b) \<le> of_int H * q * (E * of_int b)"
      by (simp add: algebra_simps)
    then show ?thesis using Eb by (simp only: mult_le_cancel_right_pos)
  qed
  have lt: "of_int H * q < 2 ^ 53"
  proof -
    have "of_int H * q * (E * of_int b) = of_int H * (q * E * of_int b)" by simp
    also have "\<dots> \<le> of_int H * (of_int a * (E + 1))"
      using qb' H by (intro mult_left_mono) simp_all
    also have "\<dots> = of_int (H * a) * (E + 1)" by simp
    also have "\<dots> < E * E"
      using Ha unfolding E_def by (simp add: algebra_simps)
    also have "\<dots> \<le> E * (E * of_int b)"
    proof -
      have "(1::rat) \<le> of_int b" using b by simp
      then have "E * 1 \<le> E * of_int b" using E0 by (intro mult_left_mono) simp_all
      then show ?thesis using E0 by (intro mult_left_mono) simp_all
    qed
    finally have "of_int H * q * (E * of_int b) < E * (E * of_int b)" .
    then have "of_int H * q < E" using Eb by (simp only: mult_less_cancel_right_pos)
    then show ?thesis unfolding E_def .
  qed
  show ?thesis unfolding fmul_def q_def [symmetric] using p0 lt ge by (rule fl_ge_int)
qed

lemma scale_trunc_bounds:
  assumes a: "0 \<le> a" and b: "0 < b" and H: "0 < H"
    and small: "3 * (H * a + b) \<le> 2 ^ 53"
  shows "0 \<le> int_of_float (fmul (of_int H) (fl (of_int a / of_int b)))"
    and "int_of_float (fmul (of_int H) (fl (of_int a / of_int b))) * b \<le> H * a"
    and "H * a \<le> (int_of_float (fmul (of_int H) (fl (of_int a / of_int b))) + 1) * b"
proof -
  define y where "y = fmul (of_int H) (fl (of_int a / of_int b))"
  define n where "n = int_of_float y"
  have "0 \<le> n \<and> n * b \<le> H * a \<and> H * a \<le> (n + 1) * b"
  proof (cases "a = 0")
    case True
    then have "y = 0" unfolding y_def by (simp add: fl_zero fmul_def)
    then have "n = 0" unfolding n_def by (simp add: int_of_float_def)
    then show ?thesis using True b by simp
  next
    case False
    then have a': "0 < a" using a by simp
    have Ha0: "0 \<le> H * a" using H a by simp
    have s1: "3 * (H * a) \<le> 2 ^ 53" using small b by simp
    have "(0::int) * b < H * a" using a' H by simp
    then have "of_int 0 \<le> y" unfolding y_def using a' b H s1 by (intro scale_ge)
    then have y0: "0 \<le> y" by simp
    then have n: "n = \<lfloor>y\<rfloor>" unfolding n_def by (rule int_of_float_nonneg)
    define m0 where "m0 = H * a div b + 1"
    have m0: "H * a < m0 * b" "m0 * b \<le> H * a + b"
    proof -
      define d r where "d = H * a div b" and "r = H * a mod b"
      have eq: "H * a = d * b + r" unfolding d_def r_def by simp
      have r: "0 \<le> r" "r < b" unfolding r_def using b by simp_all
      have "m0 * b = d * b + b" unfolding m0_def d_def by (simp add: algebra_simps)
      then show "H * a < m0 * b" "m0 * b \<le> H * a + b" using eq r by linarith+
    qed
    have "3 * (m0 * b) \<le> 2 ^ 53" using m0(2) small by simp
    then have "y < of_int m0" unfolding y_def using a' b H m0(1) by (intro scale_trunc_upper_least)
    then have "n < m0" unfolding n by (simp add: floor_less_iff)
    then have "n \<le> H * a div b" unfolding m0_def by simp
    then have "n * b \<le> (H * a div b) * b" using b by (intro mult_right_mono) simp_all
    also have "\<dots> = m0 * b - b" unfolding m0_def by (simp add: algebra_simps)
    also have "\<dots> \<le> H * a" using m0(2) by simp
    finally have up: "n * b \<le> H * a" .
    have lo: "H * a \<le> (n + 1) * b"
    proof (rule ccontr)
      assume "\<not> H * a \<le> (n + 1) * b"
      then have "(n + 1) * b < H * a" by simp
      then have "of_int (n + 1) \<le> y" unfolding y_def using a' b H s1 by (intro scale_ge)
      then have "n + 1 \<le> \<lfloor>y\<rfloor>" by (simp only: le_floor_iff)
      then show False unfolding n by simp
    qed
    have "0 \<le> n" unfolding n using y0 by simp
    then show ?thesis using up lo by simp
  qed
  then show "0 \<le> int_of_float (fmul (of_int H) (fl (of_int a / of_int b)))"
    and "int_of_float (fmul (of_int H) (fl (of_int a / of_int b))) * b \<le> H * a"
    and "H * a \<le> (int_of_float (fmul (of_int H) (fl (of_int a / of_int b))) + 1) * b"
    unfolding n_def y_def by simp_all
qed

section \<open>Files and directories\<close>

text \<open>Reading, writing and listing; the runs that find nothing to do.\<close>

lemma lookup_write_same:
  "write_file s p b = Inr s' \<Longrightarrow> lookup s' p = Some (Regular b)"
  by (auto simp: write_file_def lookup_def update_conv' split: option.splits node.splits)

lemma lookup_write_other:
  "write_file s p b = Inr s' \<Longrightarrow> q \<noteq> p \<Longrightarrow> lookup s' q = lookup s q"
  by (cases p; cases q)
    (auto simp: write_file_def lookup_def update_conv' split: option.splits node.splits if_splits)

lemma write_file_same:
  "write_file s p b = Inr s' \<Longrightarrow> read_file s' p = Some b"
  by (simp add: read_file_def lookup_write_same)

lemma write_file_other:
  "write_file s p b = Inr s' \<Longrightarrow> q \<noteq> p \<Longrightarrow> read_file s' q = read_file s q"
  by (simp add: read_file_def lookup_write_other)

lemma path_exists_write_other:
  "write_file s p b = Inr s' \<Longrightarrow> q \<noteq> p \<Longrightarrow> path_exists s' q = path_exists s q"
  by (simp add: path_exists_def lookup_write_other)

lemma path_exists_write_file:
  "write_file s p b = Inr s' \<Longrightarrow> path_exists s q \<Longrightarrow> path_exists s' q"
  by (cases "q = p") (simp_all add: path_exists_def lookup_write_same lookup_write_other)

lemma write_file_dir_exists:
  "write_file s p b = Inr s' \<Longrightarrow> dir_exists s' d = dir_exists s d"
  by (auto simp: write_file_def dir_exists_def split: option.splits node.splits if_splits)

lemma write_file_other_dir:
  "write_file s p b = Inr s' \<Longrightarrow> d \<noteq> fst p \<Longrightarrow> s' d = s d"
  by (auto simp: write_file_def split: option.splits node.splits)

lemma write_file_new:
  "dir_exists s (fst p) \<Longrightarrow> \<not> path_exists s p \<Longrightarrow> \<exists>s'. write_file s p b = Inr s'"
  by (auto simp: write_file_def dir_exists_def path_exists_def lookup_def
      split: option.splits node.splits)

lemma write_file_over:
  "read_file s p = Some old \<Longrightarrow> \<exists>s'. write_file s p b = Inr s'"
  by (auto simp: write_file_def read_file_def lookup_def split: option.splits node.splits)

lemma write_file_over_eq:
  "s (fst p) = Some al \<Longrightarrow> read_file s p = Some old \<Longrightarrow>
   write_file s p b = Inr (s(fst p := Some (AList.update (snd p) (Regular b) al)))"
  by (auto simp: write_file_def read_file_def lookup_def split: option.splits node.splits)

lemma open_read_Inr: "open_read s p = Inr b \<longleftrightarrow> read_file s p = Some b"
  by (auto simp: open_read_def read_file_def split: option.splits node.splits)

lemma read_file_exists: "read_file s p = Some b \<Longrightarrow> path_exists s p"
  by (auto simp: read_file_def path_exists_def split: option.splits)

lemma glob_mkdir_same: "glob (mkdir s d) d suffix = glob s d suffix"
  by (simp add: glob_def mkdir_def split: option.splits)

lemma mkdir_other: "d' \<noteq> d \<Longrightarrow> mkdir s d d' = s d'"
  by (simp add: mkdir_def split: option.splits)

lemma mkdir_same: "mkdir s d d = Some (case s d of None \<Rightarrow> [] | Some al \<Rightarrow> al)"
  by (simp add: mkdir_def split: option.splits)

lemma glob_cong: "s' d = s d \<Longrightarrow> glob s' d suffix = glob s d suffix"
  by (simp add: glob_def)

lemma jpg_files_cong: "s' IMAGES_DIR = s IMAGES_DIR \<Longrightarrow> jpg_files s' = jpg_files s"
  by (simp add: jpg_files_def glob_def)

lemma jpg_files_mkdirs: "jpg_files (mkdir (mkdir s IMAGES_DIR) THUMBS_DIR) = jpg_files s"
proof -
  have "jpg_files (mkdir (mkdir s IMAGES_DIR) THUMBS_DIR) = jpg_files (mkdir s IMAGES_DIR)"
    by (rule jpg_files_cong) (simp add: mkdir_other)
  also have "\<dots> = jpg_files s" by (simp add: jpg_files_def glob_mkdir_same)
  finally show ?thesis .
qed

lemma jpg_files_no_dir: "\<not> dir_exists s IMAGES_DIR \<Longrightarrow> jpg_files s = []"
  by (simp add: jpg_files_def glob_def dir_exists_def)

lemma main_generate_thumbs_no_files:
  assumes "jpg_files s = []"
  shows "main_generate_thumbs lib s = (mkdir (mkdir s IMAGES_DIR) THUMBS_DIR, [No_files_found])"
  using assms by (simp add: main_generate_thumbs_def jpg_files_mkdirs Let_def)

section \<open>Geometry of the two scripts\<close>

text \<open>
  The widths and heights the scripts pass to \<^verbatim>\<open>resize\<close>, and what each per-file function does
  once the image is decoded.
\<close>

lemma fl_nonneg: "0 \<le> x \<Longrightarrow> 0 \<le> fl x"
  using fl_pos [of x] by (cases "x = 0") (simp_all add: fl_zero less_eq_rat_def)

lemma scale_trunc_floor:
  assumes "0 \<le> a" "0 < b" "0 < H"
  shows "int_of_float (fmul (of_int H) (fl (of_int a / of_int b)))
    = \<lfloor>fl (of_int H * fl (of_int a / of_int b))\<rfloor>"
proof -
  have "(0::rat) \<le> of_int a / of_int b" using assms by simp
  then have "0 \<le> fl (of_int a / of_int b)" by (rule fl_nonneg)
  then have "0 \<le> of_int H * fl (of_int a / of_int b)" using assms(3) by simp
  then have "0 \<le> fl (of_int H * fl (of_int a / of_int b))" by (rule fl_nonneg)
  then show ?thesis unfolding fmul_def by (rule int_of_float_nonneg)
qed

lemma cross_bounds_rat:
  assumes "0 < b" "n * b \<le> H * a" "H * a \<le> (n + 1) * b"
  shows "(of_int n :: rat) \<le> of_int H * of_int a / of_int b"
    and "(of_int H :: rat) * of_int a / of_int b \<le> of_int n + 1"
proof -
  have b: "(0::rat) < of_int b" using assms(1) by simp
  have "(of_int (n * b) :: rat) \<le> of_int (H * a)" using assms(2) by (simp only: of_int_le_iff)
  then show "(of_int n :: rat) \<le> of_int H * of_int a / of_int b"
    using b by (simp add: pos_le_divide_eq)
  have "(of_int (H * a) :: rat) \<le> of_int ((n + 1) * b)" using assms(3) by (simp only: of_int_le_iff)
  then show "(of_int H :: rat) * of_int a / of_int b \<le> of_int n + 1"
    using b by (simp add: pos_divide_le_eq)
qed

lemma thumbnail_size_eq:
  "height img \<noteq> 0 \<Longrightarrow> thumbnail_size img h =
     Inr (int_of_float (fmul (of_int h) (fl (of_int (width img) / of_int (height img)))), h)"
  by (simp add: thumbnail_size_def truediv_def)

lemma fmul_commute: "fmul x y = fmul y x"
  by (simp add: fmul_def mult.commute)

lemma web_size_wide:
  "h < w \<Longrightarrow> w \<noteq> 0 \<Longrightarrow> web_size w h m =
     Inr (m, int_of_float (fmul (of_int m) (fl (of_int h / of_int w))))"
  by (simp add: web_size_def truediv_def fmul_commute)

lemma web_size_tall:
  "\<not> h < w \<Longrightarrow> h \<noteq> 0 \<Longrightarrow> web_size w h m =
     Inr (int_of_float (fmul (of_int m) (fl (of_int w / of_int h))), m)"
  by (simp add: web_size_def truediv_def fmul_commute)

lemma short_side:
  assumes "0 < a" "a \<le> b" "b < 2 ^ 31"
  defines "n \<equiv> int_of_float (fmul (of_int 3000) (fl (of_int a / of_int b)))"
  shows "n = \<lfloor>fl (fl (of_int a / of_int b) * 3000)\<rfloor>" "n \<le> 3000"
    "(of_int n :: rat) \<le> 3000 * of_int a / of_int b"
    "(3000 * of_int a / of_int b :: rat) \<le> of_int n + 1"
proof -
  have a: "0 \<le> a" and b: "0 < b" using assms(1,2) by simp_all
  have small: "3 * (3000 * a + b) \<le> 2 ^ 53" using assms(2,3) by simp
  show "n = \<lfloor>fl (fl (of_int a / of_int b) * 3000)\<rfloor>"
    unfolding n_def using scale_trunc_floor [OF a b, of 3000] by (simp add: mult.commute)
  have cross: "n * b \<le> 3000 * a" "3000 * a \<le> (n + 1) * b"
    unfolding n_def using scale_trunc_bounds(2,3) [OF a b _ small] by simp_all
  have "n * b \<le> 3000 * b" using cross(1) assms(2) by simp
  then show "n \<le> 3000" using b by simp
  show "(of_int n :: rat) \<le> 3000 * of_int a / of_int b"
    "(3000 * of_int a / of_int b :: rat) \<le> of_int n + 1"
    using cross_bounds_rat [OF b cross] by simp_all
qed

lemma binary64_product_below_integer:
  "web_size 6000 54 3000 = Inr (3000, 26) \<and> (54 / 6000 * 3000 :: rat) = 27"
  by code_simp

lemma save_path_Inr:
  "save_path lib s img p params = Inr s' \<Longrightarrow>
   \<exists>b. Image_save lib img params = Encoded b \<and> write_file s p b = Inr s'"
  by (auto simp: save_path_def split: saved.splits sum.splits)

lemma save_path_Inl:
  "save_path lib s img p params = Inl (e, s') \<Longrightarrow>
   s' = s \<or> (path_exists s p \<and> (\<exists>partial. write_file s p partial = Inr s'))"
  by (auto simp: save_path_def split: saved.splits sum.splits if_splits)

lemma save_path_written:
  "save_path lib s img p params = Inr s' \<Longrightarrow>
   \<exists>b. Image_save lib img params = Encoded b \<and> read_file s' p = Some b"
  using save_path_Inr write_file_same by blast

lemma generate_thumbnail_opened:
  assumes "open_path lib s image_path = Inr img" "thumbnail_size img h = Inr new_size"
  shows "generate_thumbnail lib s image_path thumb_path h =
    (case Image_resize lib img new_size LANCZOS of
       Inl e \<Rightarrow> (s, [Error_processing (snd image_path) e])
     | Inr img_resized \<Rightarrow>
         (case save_path lib s img_resized thumb_path
                 \<lparr>quality = 85, optimize = True, exif_bytes = None\<rparr> of
            Inl (e, s1) \<Rightarrow> (s1, [Error_processing (snd image_path) e])
          | Inr s' \<Rightarrow> (s', [Generated (snd thumb_path)])))"
  using assms
  by (simp add: generate_thumbnail_def thumbnail_body_def split: sum.splits prod.splits)

lemma generate_thumbnail_generated:
  assumes "open_path lib s image_path = Inr img" "thumbnail_size img h = Inr new_size"
    "snd (generate_thumbnail lib s image_path thumb_path h) = [Generated (snd thumb_path)]"
  shows "\<exists>img_resized b. Image_resize lib img new_size LANCZOS = Inr img_resized \<and>
    Image_save lib img_resized \<lparr>quality = 85, optimize = True, exif_bytes = None\<rparr> = Encoded b \<and>
    read_file (fst (generate_thumbnail lib s image_path thumb_path h)) thumb_path = Some b"
proof (cases "Image_resize lib img new_size LANCZOS")
  case (Inl e)
  then show ?thesis using assms(3) by (simp add: generate_thumbnail_opened [OF assms(1,2)])
next
  case (Inr img_resized)
  show ?thesis
  proof (cases "save_path lib s img_resized thumb_path
      \<lparr>quality = 85, optimize = True, exif_bytes = None\<rparr>")
    case (Inl raised)
    then show ?thesis
      using assms(3) Inr
      by (cases raised) (simp add: generate_thumbnail_opened [OF assms(1,2)])
  next
    case saved: (Inr s')
    then show ?thesis
      using Inr save_path_written [OF saved]
      by (simp add: generate_thumbnail_opened [OF assms(1,2)])
  qed
qed

lemma resize_for_web_large:
  assumes "open_path lib s p = Inr opened" "Image_copy lib opened = Inr copied"
    "exif_transpose lib copied = Inr (Some img)"
    "m < max (width img) (height img)"
    "web_size (width img) (height img) m = Inr (nw, nh)"
  shows "resize_for_web lib s p m q =
    (case Image_resize lib img (nw, nh) LANCZOS of
       Inl e \<Rightarrow> (s, [Error_processing (snd p) e])
     | Inr img_resized \<Rightarrow>
         (case web_save lib s img_resized p q of
            Inl (e, s1) \<Rightarrow> (s1, [Error_processing (snd p) e])
          | Inr s' \<Rightarrow> (s', [Resized (snd p) (width img) (height img) nw nh])))"
proof -
  have "\<not> max (width img) (height img) \<le> m" using assms(4) by linarith
  then have "(max (width img) (height img) \<le> m) = False" by (rule eq_False [THEN iffD2])
  then show ?thesis
    using assms(1,2,3,5)
    by (simp add: resize_for_web_def resize_body_def del: max.bounded_iff
        split: sum.split prod.split)
qed

lemma resize_for_web_resized:
  assumes "open_path lib s p = Inr opened" "Image_copy lib opened = Inr copied"
    "exif_transpose lib copied = Inr (Some img)"
    "m < max (width img) (height img)"
    "web_size (width img) (height img) m = Inr (nw, nh)"
    "snd (resize_for_web lib s p m q) = [Resized (snd p) (width img) (height img) nw nh]"
  shows "\<exists>img_resized b. Image_resize lib img (nw, nh) LANCZOS = Inr img_resized \<and>
    Image_save lib img_resized \<lparr>quality = q, optimize = True, exif_bytes = Some []\<rparr> =
      Encoded b \<and>
    read_file (fst (resize_for_web lib s p m q)) p = Some b"
proof (cases "Image_resize lib img (nw, nh) LANCZOS")
  case (Inl e)
  then show ?thesis using assms(6) by (simp add: resize_for_web_large [OF assms(1-5)])
next
  case (Inr img_resized)
  show ?thesis
  proof (cases "web_save lib s img_resized p q")
    case (Inl raised)
    then show ?thesis
      using assms(6) Inr by (cases raised) (simp add: resize_for_web_large [OF assms(1-5)])
  next
    case saved: (Inr s')
    then show ?thesis
      using Inr save_path_written [of lib s img_resized p _ s']
      by (simp add: resize_for_web_large [OF assms(1-5)] web_save_def)
  qed
qed

lemma short_side_zero:
  assumes "0 < a" "a \<le> b" "b < 2 ^ 31" "3000 * a < b"
  shows "int_of_float (fmul (of_int 3000) (fl (of_int a / of_int b))) = 0"
proof -
  define n where "n = int_of_float (fmul (of_int 3000) (fl (of_int a / of_int b)))"
  have a: "0 \<le> a" and b: "0 < b" using assms(1,2) by simp_all
  have small: "3 * (3000 * a + b) \<le> 2 ^ 53" using assms(2,3) by simp
  have "0 \<le> n" "n * b \<le> 3000 * a"
    unfolding n_def using scale_trunc_bounds(1,2) [OF a b _ small] by simp_all
  then have "n * b < 1 * b" "0 \<le> n" using assms(4) by simp_all
  then have "n = 0" using b by (simp only: mult_less_cancel_right) simp
  then show ?thesis unfolding n_def .
qed

section \<open>The batch loops\<close>

text \<open>
  What one iteration can change and print, and the invariants of the two loops.  The thumbnail
  loop reports every file once and keeps the thumbnails that exist.  The web loop keeps the
  backups that exist and reports the files in order until a backup copy, which no handler
  protects, raises; it reports all of them when every file without a backup can be read.
\<close>

lemma generate_thumbnail_cases:
  assumes "generate_thumbnail lib s ip tp h = (s', evs)"
  shows "((s' = s \<or> (path_exists s tp \<and> (\<exists>partial. write_file s tp partial = Inr s'))) \<and>
          (\<exists>e. evs = [Error_processing (snd ip) e]))
    \<or> (\<exists>b. write_file s tp b = Inr s' \<and> evs = [Generated (snd tp)])"
proof (cases "thumbnail_body lib s ip tp h")
  case (Inl raised)
  obtain e s1 where raised: "raised = (e, s1)" by (cases raised)
  have "s1 = s \<or> (path_exists s tp \<and> (\<exists>partial. write_file s tp partial = Inr s1))"
    using Inl raised
    by (auto simp: thumbnail_body_def split: sum.splits dest: save_path_Inl)
  then show ?thesis using assms Inl raised by (auto simp: generate_thumbnail_def)
next
  case (Inr s1)
  then have "\<exists>b. write_file s tp b = Inr s1"
    by (auto simp: thumbnail_body_def split: sum.splits dest: save_path_Inr)
  then show ?thesis using assms Inr by (auto simp: generate_thumbnail_def)
qed

lemma generate_thumbnail_write:
  assumes "generate_thumbnail lib s ip tp h = (s', evs)"
  shows "s' = s \<or> (\<exists>b. write_file s tp b = Inr s')"
  using generate_thumbnail_cases [OF assms] by blast

lemma generate_thumbnail_new:
  assumes "generate_thumbnail lib s ip tp h = (s', evs)" "\<not> path_exists s tp"
  shows "(s' = s \<and> (\<exists>e. evs = [Error_processing (snd ip) e]))
    \<or> (\<exists>b. write_file s tp b = Inr s' \<and> evs = [Generated (snd tp)])"
  using generate_thumbnail_cases [OF assms(1)] assms(2) by blast

lemma resize_for_web_cases:
  assumes "resize_for_web lib s p m q = (s', evs)"
  shows "((s' = s \<or> (\<exists>partial. write_file s p partial = Inr s')) \<and>
          (evs = [Orientation_error (snd p)] \<or> (\<exists>e. evs = [Error_processing (snd p) e])))
    \<or> (\<exists>b w h. write_file s p b = Inr s' \<and>
          (evs = [Optimized (snd p) w h] \<or> (\<exists>nw nh. evs = [Resized (snd p) w h nw nh])))"
proof (cases "resize_body lib s p m q")
  case (Inl raised)
  obtain e s1 where raised: "raised = (e, s1)" by (cases raised)
  have "s1 = s \<or> (\<exists>partial. write_file s p partial = Inr s1)"
    using Inl raised
    by (auto simp: resize_body_def web_save_def split: sum.splits option.splits if_splits
        dest: save_path_Inl)
  then show ?thesis using assms Inl raised by (auto simp: resize_for_web_def)
next
  case (Inr r)
  then have body: "resize_body lib s p m q = Inr (s', evs)"
    using assms by (simp add: resize_for_web_def)
  then show ?thesis
    by (auto simp: resize_body_def web_save_def split: sum.splits option.splits if_splits
        dest!: save_path_Inr)
qed

lemma resize_for_web_write:
  assumes "resize_for_web lib s p m q = (s', evs)"
  shows "s' = s \<or> (\<exists>b. write_file s p b = Inr s')"
  using resize_for_web_cases [OF assms] by blast


lemma resize_for_web_reported:
  assumes "resize_for_web lib s (d, name) m q = (s', evs)"
  shows "List.map_filter reported evs = [name]"
  using resize_for_web_cases [OF assms] by auto

lemma map_filter_append:
  "List.map_filter f (xs @ ys) = List.map_filter f xs @ List.map_filter f ys"
  by (simp add: List.map_filter_def)


lemma backup_file_Inr:
  assumes "backup_file s name = Inr s1"
  shows "if path_exists s (BACKUP_DIR, name) then s1 = s
     else \<exists>b. read_file s (IMAGES_DIR, name) = Some b \<and>
            write_file s (BACKUP_DIR, name) b = Inr s1"
  using assms
  by (auto simp: backup_file_def copy2_def open_read_Inr split: sum.splits if_splits)

lemma backup_file_succeeds:
  assumes "dir_exists s BACKUP_DIR"
    "path_exists s (BACKUP_DIR, name) \<or> (\<exists>b. read_file s (IMAGES_DIR, name) = Some b)"
  shows "\<exists>s1. backup_file s name = Inr s1"
proof (cases "path_exists s (BACKUP_DIR, name)")
  case True
  then show ?thesis by (simp add: backup_file_def)
next
  case False
  then obtain b where b: "read_file s (IMAGES_DIR, name) = Some b" using assms(2) by blast
  obtain s1 where "write_file s (BACKUP_DIR, name) b = Inr s1"
    using write_file_new [of s "(BACKUP_DIR, name)" b] assms(1) False by auto
  then show ?thesis
    using False b by (simp add: backup_file_def copy2_def open_read_Inr [THEN iffD2])
qed

lemma web_step:
  assumes "backup_file s n = Inr s1"
    "resize_for_web lib s1 (IMAGES_DIR, n) MAX_DIMENSION QUALITY = (s2, ev)"
  shows "\<And>q. q \<noteq> (BACKUP_DIR, n) \<Longrightarrow> q \<noteq> (IMAGES_DIR, n) \<Longrightarrow> lookup s2 q = lookup s q"
    and "\<And>q. path_exists s q \<Longrightarrow> path_exists s2 q"
    and "dir_exists s2 BACKUP_DIR = dir_exists s BACKUP_DIR"
    and "path_exists s2 (BACKUP_DIR, n)"
    and "read_file s2 (BACKUP_DIR, n) =
      (if path_exists s (BACKUP_DIR, n) then read_file s (BACKUP_DIR, n)
       else read_file s (IMAGES_DIR, n))"
    and "\<not> path_exists s (BACKUP_DIR, n) \<Longrightarrow> \<exists>b. read_file s (IMAGES_DIR, n) = Some b"
    and "lookup s1 (IMAGES_DIR, n) = lookup s (IMAGES_DIR, n)"
proof -
  note c = backup_file_Inr [OF assms(1)]
  note w = resize_for_web_write [OF assms(2)]
  have s1_other: "lookup s1 q = lookup s q" if "q \<noteq> (BACKUP_DIR, n)" for q
    using c that by (auto simp: lookup_write_other split: if_splits)
  have s2_other: "lookup s2 q = lookup s1 q" if "q \<noteq> (IMAGES_DIR, n)" for q
    using w that by (auto simp: lookup_write_other)
  show "lookup s2 q = lookup s q" if "q \<noteq> (BACKUP_DIR, n)" "q \<noteq> (IMAGES_DIR, n)" for q
    using s1_other s2_other that by simp
  show "path_exists s2 q" if "path_exists s q" for q
  proof -
    have "path_exists s1 q"
      using c that by (auto intro: path_exists_write_file split: if_splits)
    then show ?thesis using w by (auto intro: path_exists_write_file)
  qed
  have "dir_exists s1 BACKUP_DIR = dir_exists s BACKUP_DIR"
    using c by (auto simp: write_file_dir_exists split: if_splits)
  then show "dir_exists s2 BACKUP_DIR = dir_exists s BACKUP_DIR"
    using w by (auto simp: write_file_dir_exists)
  have backup_same: "lookup s2 (BACKUP_DIR, n) = lookup s1 (BACKUP_DIR, n)"
    by (rule s2_other) simp
  have s1_backup: "read_file s1 (BACKUP_DIR, n) =
      (if path_exists s (BACKUP_DIR, n) then read_file s (BACKUP_DIR, n)
       else read_file s (IMAGES_DIR, n))"
    using c by (auto simp: write_file_same split: if_splits)
  show "read_file s2 (BACKUP_DIR, n) =
      (if path_exists s (BACKUP_DIR, n) then read_file s (BACKUP_DIR, n)
       else read_file s (IMAGES_DIR, n))"
    using s1_backup backup_same by (simp add: read_file_def)
  have "path_exists s1 (BACKUP_DIR, n)"
    using c by (auto simp: path_exists_def lookup_write_same split: if_splits)
  then show "path_exists s2 (BACKUP_DIR, n)"
    using backup_same by (simp add: path_exists_def)
  show "\<exists>b. read_file s (IMAGES_DIR, n) = Some b" if "\<not> path_exists s (BACKUP_DIR, n)"
    using c that by auto
  show "lookup s1 (IMAGES_DIR, n) = lookup s (IMAGES_DIR, n)"
    by (rule s1_other) simp
qed

lemma web_loop_backups:
  assumes "web_loop lib names s = (s', evs, crash)"
  shows "(\<forall>name old. read_file s (BACKUP_DIR, name) = Some old \<longrightarrow>
       read_file s' (BACKUP_DIR, name) = Some old) \<and>
    (\<forall>name \<in> set (List.map_filter reported evs). \<not> path_exists s (BACKUP_DIR, name) \<longrightarrow>
       (\<exists>original. read_file s (IMAGES_DIR, name) = Some original \<and>
          read_file s' (BACKUP_DIR, name) = Some original)) \<and>
    (\<exists>k. List.map_filter reported evs = take k names) \<and>
    (crash = None \<longrightarrow> List.map_filter reported evs = names)"
  using assms
proof (induction names arbitrary: s s' evs crash)
  case Nil
  then show ?case by simp
next
  case (Cons n rest)
  show ?case
  proof (cases "backup_file s n")
    case (Inl e)
    then have "s' = s" "evs = []" "crash = Some e" using Cons.prems by simp_all
    then show ?thesis by (auto intro: exI [of _ 0])
  next
    case (Inr s1)
    obtain s2 ev where s2:
      "resize_for_web lib s1 (IMAGES_DIR, n) MAX_DIMENSION QUALITY = (s2, ev)"
      by (cases "resize_for_web lib s1 (IMAGES_DIR, n) MAX_DIMENSION QUALITY")
    obtain evs' where loop: "web_loop lib rest s2 = (s', evs', crash)"
      and evs: "evs = ev @ Blank # evs'"
      using Cons.prems Inr s2 by (auto split: prod.splits)
    note step = web_step [OF Inr s2]
    note IH = Cons.IH [OF loop]
    have IH_made: "\<forall>name \<in> set (List.map_filter reported evs').
        \<not> path_exists s2 (BACKUP_DIR, name) \<longrightarrow>
        (\<exists>original. read_file s2 (IMAGES_DIR, name) = Some original \<and>
          read_file s' (BACKUP_DIR, name) = Some original)"
      using IH by (rule conjunct2 [THEN conjunct1])
    have rep: "List.map_filter reported evs = n # List.map_filter reported evs'"
      using resize_for_web_reported [OF s2] evs by (simp add: map_filter_append)
    have s2_read: "read_file s2 q = read_file s q"
      if "q \<noteq> (BACKUP_DIR, n)" "q \<noteq> (IMAGES_DIR, n)" for q
      using step(1) [OF that] by (simp add: read_file_def)
    have kept: "read_file s' (BACKUP_DIR, name) = Some old"
      if "read_file s (BACKUP_DIR, name) = Some old" for name old
    proof -
      have "read_file s2 (BACKUP_DIR, name) = Some old"
      proof (cases "name = n")
        case True
        then show ?thesis using that step(5) read_file_exists [OF that] by simp
      next
        case False
        then show ?thesis using that s2_read [of "(BACKUP_DIR, name)"] by simp
      qed
      then show ?thesis using IH by blast
    qed
    have made: "\<exists>original. read_file s (IMAGES_DIR, name) = Some original \<and>
          read_file s' (BACKUP_DIR, name) = Some original"
      if listed: "name \<in> set (List.map_filter reported evs)"
        and absent: "\<not> path_exists s (BACKUP_DIR, name)" for name
    proof (cases "name = n")
      case True
      obtain b where b: "read_file s (IMAGES_DIR, n) = Some b"
        using step(6) absent True by blast
      have "read_file s2 (BACKUP_DIR, n) = Some b" using step(5) absent True b by simp
      then have "read_file s' (BACKUP_DIR, n) = Some b" using IH by blast
      then show ?thesis using True b by simp
    next
      case False
      then have in_rest: "name \<in> set (List.map_filter reported evs')"
        using listed rep by simp
      have "lookup s2 (BACKUP_DIR, name) = lookup s (BACKUP_DIR, name)"
        using step(1) [of "(BACKUP_DIR, name)"] False by simp
      then have absent2: "\<not> path_exists s2 (BACKUP_DIR, name)"
        using absent by (simp add: path_exists_def)
      have "read_file s2 (IMAGES_DIR, name) = read_file s (IMAGES_DIR, name)"
        using s2_read [of "(IMAGES_DIR, name)"] False by simp
      moreover have "\<exists>original. read_file s2 (IMAGES_DIR, name) = Some original \<and>
          read_file s' (BACKUP_DIR, name) = Some original"
        using IH_made in_rest absent2 by blast
      ultimately show ?thesis by simp
    qed
    have prefix: "\<exists>k. List.map_filter reported evs = take k (n # rest)"
    proof -
      obtain k where "List.map_filter reported evs' = take k rest" using IH by blast
      then have "List.map_filter reported evs = take (Suc k) (n # rest)" using rep by simp
      then show ?thesis by blast
    qed
    have all: "List.map_filter reported evs = n # rest" if "crash = None"
      using IH that rep by simp
    show ?thesis using kept made prefix all by blast
  qed
qed

lemma web_loop_no_crash:
  assumes "dir_exists s BACKUP_DIR"
    and "\<forall>n \<in> set names. path_exists s (BACKUP_DIR, n) \<or>
           (\<exists>b. read_file s (IMAGES_DIR, n) = Some b)"
  shows "\<exists>s' evs. web_loop lib names s = (s', evs, None)"
  using assms
proof (induction names arbitrary: s)
  case Nil
  then show ?case by simp
next
  case (Cons n rest)
  obtain s1 where s1: "backup_file s n = Inr s1"
    using backup_file_succeeds [OF Cons.prems(1), of n] Cons.prems(2) by auto
  obtain s2 ev where s2:
    "resize_for_web lib s1 (IMAGES_DIR, n) MAX_DIMENSION QUALITY = (s2, ev)"
    by (cases "resize_for_web lib s1 (IMAGES_DIR, n) MAX_DIMENSION QUALITY")
  note step = web_step [OF s1 s2]
  have dir: "dir_exists s2 BACKUP_DIR" using step(3) Cons.prems(1) by simp
  have ok: "path_exists s2 (BACKUP_DIR, m) \<or> (\<exists>b. read_file s2 (IMAGES_DIR, m) = Some b)"
    if "m \<in> set rest" for m
  proof (cases "m = n")
    case True
    then show ?thesis using step(4) by simp
  next
    case False
    have "path_exists s (BACKUP_DIR, m) \<or> (\<exists>b. read_file s (IMAGES_DIR, m) = Some b)"
      using Cons.prems(2) that by simp
    moreover have "read_file s2 (IMAGES_DIR, m) = read_file s (IMAGES_DIR, m)"
      using step(1) [of "(IMAGES_DIR, m)"] False by (simp add: read_file_def)
    ultimately show ?thesis using step(2) by auto
  qed
  obtain s' evs where "web_loop lib rest s2 = (s', evs, None)"
    using Cons.IH [OF dir] ok by blast
  then show ?case using s1 s2 by simp
qed

lemma mkdir_exists: "dir_exists s d \<Longrightarrow> mkdir s d = s"
  by (auto simp: mkdir_def dir_exists_def split: option.splits)

lemma dir_exists_mkdir: "dir_exists (mkdir s d) d' = (d' = d \<or> dir_exists s d')"
  by (auto simp: mkdir_def dir_exists_def split: option.splits)

lemma lookup_mkdir: "lookup (mkdir s d) p = lookup s p"
  by (cases p) (auto simp: mkdir_def lookup_def split: option.splits)

lemma read_file_mkdir: "read_file (mkdir s d) p = read_file s p"
  by (simp add: read_file_def lookup_mkdir)

lemma path_exists_mkdir: "path_exists (mkdir s d) p = path_exists s p"
  by (simp add: path_exists_def lookup_mkdir)

lemma path_exists_dir: "path_exists s p \<Longrightarrow> dir_exists s (fst p)"
  by (auto simp: path_exists_def lookup_def dir_exists_def split: option.splits)

lemma jpg_files_exist:
  assumes "name \<in> set (jpg_files s)"
  shows "path_exists s (IMAGES_DIR, name)"
proof -
  obtain al where al: "s IMAGES_DIR = Some al" and "name \<in> fst ` set al"
    using assms by (force simp: jpg_files_def glob_def split: option.splits)
  then have "map_of al name \<noteq> None" by (simp add: map_of_eq_None_iff)
  then show ?thesis using al by (simp add: path_exists_def lookup_def)
qed

lemma thumbs_loop_all_skipped:
  assumes "\<forall>n \<in> set names. path_exists s (THUMBS_DIR, n)"
  shows "thumbs_loop lib names s = (s, map Skipped names)"
  using assms by (induction names) simp_all

lemma thumbs_loop_invariant:
  assumes "thumbs_loop lib names s = (s', evs)"
  shows "s' IMAGES_DIR = s IMAGES_DIR \<and> s' BACKUP_DIR = s BACKUP_DIR \<and>
    dir_exists s' THUMBS_DIR = dir_exists s THUMBS_DIR \<and>
    (\<forall>q. path_exists s q \<longrightarrow> path_exists s' q) \<and>
    (\<forall>name old. read_file s (THUMBS_DIR, name) = Some old \<longrightarrow>
       read_file s' (THUMBS_DIR, name) = Some old) \<and>
    (\<forall>name \<in> set names. path_exists s (THUMBS_DIR, name) \<longrightarrow> Skipped name \<in> set evs)"
  using assms
proof (induction names arbitrary: s s' evs)
  case Nil
  then show ?case by simp
next
  case (Cons n rest)
  show ?case
  proof (cases "path_exists s (THUMBS_DIR, n)")
    case True
    obtain evs' where loop: "thumbs_loop lib rest s = (s', evs')" and evs: "evs = Skipped n # evs'"
      using Cons.prems True by (auto split: prod.splits)
    show ?thesis using Cons.IH [OF loop] evs by auto
  next
    case False
    obtain s1 ev where g:
      "generate_thumbnail lib s (IMAGES_DIR, n) (THUMBS_DIR, n) THUMBNAIL_HEIGHT = (s1, ev)"
      by (cases "generate_thumbnail lib s (IMAGES_DIR, n) (THUMBS_DIR, n) THUMBNAIL_HEIGHT")
    obtain evs' where loop: "thumbs_loop lib rest s1 = (s', evs')" and evs: "evs = ev @ evs'"
      using Cons.prems False g by (auto split: prod.splits)
    have w: "s1 = s \<or> (\<exists>b. write_file s (THUMBS_DIR, n) b = Inr s1)"
      using g by (rule generate_thumbnail_write)
    have s1_dirs: "s1 IMAGES_DIR = s IMAGES_DIR" "s1 BACKUP_DIR = s BACKUP_DIR"
      "dir_exists s1 THUMBS_DIR = dir_exists s THUMBS_DIR"
      using w by (auto simp: write_file_other_dir write_file_dir_exists)
    have s1_exists: "path_exists s1 q" if "path_exists s q" for q
      using w that by (auto intro: path_exists_write_file)
    have s1_keep: "read_file s1 (THUMBS_DIR, name) = Some old"
      if "read_file s (THUMBS_DIR, name) = Some old" for name old
    proof -
      have "name \<noteq> n" using that False read_file_exists by blast
      then show ?thesis using w that by (auto simp: write_file_other)
    qed
    show ?thesis
      using Cons.IH [OF loop] s1_dirs s1_exists s1_keep evs False by auto
  qed
qed

lemma generate_thumbnail_state:
  assumes same: "lookup t ip = lookup s ip"
    and dirs: "dir_exists t (fst tp)" "dir_exists s (fst tp)"
    and absent: "\<not> path_exists s tp" "\<not> path_exists t tp"
    and failed: "generate_thumbnail lib s ip tp h = (s1, [Error_processing n e])"
  shows "generate_thumbnail lib t ip tp h = (t, [Error_processing n e])"
proof -
  have w: "\<exists>t'. write_file t tp b = Inr t'" for b
    using write_file_new [OF dirs(1) absent(2)] by simp
  have opened: "open_path lib t ip = open_path lib s ip"
    using same by (simp add: open_path_def open_read_def)
  show ?thesis
  proof (cases "open_path lib s ip")
    case (Inl e1)
    then show ?thesis
      using failed opened by (simp add: generate_thumbnail_def thumbnail_body_def)
  next
    case img: (Inr img)
    show ?thesis
    proof (cases "thumbnail_size img h")
      case (Inl e1)
      then show ?thesis
        using failed opened img by (simp add: generate_thumbnail_def thumbnail_body_def)
    next
      case new_size: (Inr new_size)
      show ?thesis
      proof (cases "Image_resize lib img new_size LANCZOS")
        case (Inl e1)
        then show ?thesis
          using failed opened img new_size
          by (simp add: generate_thumbnail_def thumbnail_body_def)
      next
        case resized: (Inr img_resized)
        define params where "params = \<lparr>quality = 85, optimize = True, exif_bytes = None\<rparr>"
        have body_s: "thumbnail_body lib s ip tp h = save_path lib s img_resized tp params"
          and body_t: "thumbnail_body lib t ip tp h = save_path lib t img_resized tp params"
          using opened img new_size resized by (simp_all add: thumbnail_body_def params_def)
        show ?thesis
        proof (cases "Image_save lib img_resized params")
          case (Encoded b)
          obtain s' where "write_file s tp b = Inr s'"
            using write_file_new [OF dirs(2) absent(1)] by blast
          then show ?thesis
            using failed body_s Encoded by (simp add: generate_thumbnail_def save_path_def)
        next
          case (Refused e1)
          then show ?thesis
            using failed body_s body_t by (simp add: generate_thumbnail_def save_path_def)
        next
          case (Broken e1 partial)
          obtain t' where t': "write_file t tp partial = Inr t'" using w by blast
          obtain s' where "write_file s tp partial = Inr s'"
            using write_file_new [OF dirs(2) absent(1)] by blast
          then have "e = e1 \<and> n = snd ip"
            using failed body_s Broken absent(1)
            by (simp add: generate_thumbnail_def save_path_def)
          then show ?thesis
            using body_t Broken t' absent(2)
            by (simp add: generate_thumbnail_def save_path_def)
        qed
      qed
    qed
  qed
qed

lemma thumbs_loop_settled:
  assumes "thumbs_loop lib names s = (s', evs)" "dir_exists s THUMBS_DIR"
  shows "\<forall>n \<in> set names. path_exists s' (THUMBS_DIR, n) \<or>
    (\<exists>e. generate_thumbnail lib s' (IMAGES_DIR, n) (THUMBS_DIR, n) THUMBNAIL_HEIGHT =
       (s', [Error_processing n e]))"
  using assms
proof (induction names arbitrary: s s' evs)
  case Nil
  then show ?case by simp
next
  case (Cons n rest)
  show ?case
  proof (cases "path_exists s (THUMBS_DIR, n)")
    case True
    obtain evs' where loop: "thumbs_loop lib rest s = (s', evs')"
      using Cons.prems True by (auto split: prod.splits)
    have "path_exists s' (THUMBS_DIR, n)"
      using thumbs_loop_invariant [OF loop] True by blast
    then show ?thesis using Cons.IH [OF loop Cons.prems(2)] by simp
  next
    case False
    obtain s1 ev where g:
      "generate_thumbnail lib s (IMAGES_DIR, n) (THUMBS_DIR, n) THUMBNAIL_HEIGHT = (s1, ev)"
      by (cases "generate_thumbnail lib s (IMAGES_DIR, n) (THUMBS_DIR, n) THUMBNAIL_HEIGHT")
    obtain evs' where loop: "thumbs_loop lib rest s1 = (s', evs')"
      using Cons.prems False g by (auto split: prod.splits)
    have s1_dir: "dir_exists s1 THUMBS_DIR"
      using generate_thumbnail_write [OF g] Cons.prems(2) by (auto simp: write_file_dir_exists)
    note inv = thumbs_loop_invariant [OF loop]
    have s'_dir: "dir_exists s' THUMBS_DIR" using inv s1_dir by simp
    have head: "path_exists s' (THUMBS_DIR, n) \<or>
      (\<exists>e. generate_thumbnail lib s' (IMAGES_DIR, n) (THUMBS_DIR, n) THUMBNAIL_HEIGHT =
         (s', [Error_processing n e]))"
    proof (cases "path_exists s' (THUMBS_DIR, n)")
      case True
      then show ?thesis by simp
    next
      case absent': False
      have "\<not> (\<exists>b. write_file s (THUMBS_DIR, n) b = Inr s1)"
      proof
        assume "\<exists>b. write_file s (THUMBS_DIR, n) b = Inr s1"
        then have "path_exists s1 (THUMBS_DIR, n)"
          by (auto simp: path_exists_def lookup_write_same)
        then show False using inv absent' by blast
      qed
      then obtain e where s1: "s1 = s" and ev: "ev = [Error_processing n e]"
        using generate_thumbnail_new [OF g False] by auto
      have "s' IMAGES_DIR = s IMAGES_DIR" using inv s1 by simp
      then have "lookup s' (IMAGES_DIR, n) = lookup s (IMAGES_DIR, n)"
        by (simp add: lookup_def)
      then have "generate_thumbnail lib s' (IMAGES_DIR, n) (THUMBS_DIR, n) THUMBNAIL_HEIGHT =
          (s', [Error_processing n e])"
        using s'_dir Cons.prems(2) False absent' g ev
        by (intro generate_thumbnail_state [of s' _ s]) simp_all
      then show ?thesis by blast
    qed
    show ?thesis using head Cons.IH [OF loop s1_dir] by simp
  qed
qed

lemma thumbs_loop_unchanged:
  assumes "\<forall>n \<in> set names. path_exists s (THUMBS_DIR, n) \<or>
    (\<exists>e. generate_thumbnail lib s (IMAGES_DIR, n) (THUMBS_DIR, n) THUMBNAIL_HEIGHT =
       (s, [Error_processing n e]))"
  shows "fst (thumbs_loop lib names s) = s"
  using assms
proof (induction names)
  case Nil
  then show ?case by simp
next
  case (Cons n rest)
  then have rest: "fst (thumbs_loop lib rest s) = s" by simp
  show ?case
  proof (cases "path_exists s (THUMBS_DIR, n)")
    case True
    then show ?thesis using rest by (auto split: prod.splits)
  next
    case False
    then obtain e where
      "generate_thumbnail lib s (IMAGES_DIR, n) (THUMBS_DIR, n) THUMBNAIL_HEIGHT =
        (s, [Error_processing n e])"
      using Cons.prems by auto
    then show ?thesis using False rest by (auto split: prod.splits)
  qed
qed

lemma main_generate_thumbs_unfold:
  "main_generate_thumbs lib s =
     (if jpg_files s = [] then (mkdir (mkdir s IMAGES_DIR) THUMBS_DIR, [No_files_found])
      else (fst (thumbs_loop lib (sort (jpg_files s)) (mkdir (mkdir s IMAGES_DIR) THUMBS_DIR)),
            Found (length (jpg_files s)) #
            snd (thumbs_loop lib (sort (jpg_files s)) (mkdir (mkdir s IMAGES_DIR) THUMBS_DIR)) @
            [Done_thumbs]))"
  by (simp add: main_generate_thumbs_def jpg_files_mkdirs Let_def split: prod.splits)

lemma main_generate_thumbs_again:
  "fst (main_generate_thumbs lib (fst (main_generate_thumbs lib s))) =
   fst (main_generate_thumbs lib s)"
proof -
  define s1 where "s1 = mkdir (mkdir s IMAGES_DIR) THUMBS_DIR"
  have dirs: "dir_exists s1 IMAGES_DIR" "dir_exists s1 THUMBS_DIR"
    unfolding s1_def by (simp_all add: dir_exists_mkdir)
  have files: "jpg_files s1 = jpg_files s" unfolding s1_def by (rule jpg_files_mkdirs)
  show ?thesis
  proof (cases "jpg_files s = []")
    case True
    then have first: "fst (main_generate_thumbs lib s) = s1"
      by (simp add: main_generate_thumbs_unfold s1_def)
    have "fst (main_generate_thumbs lib s1) = mkdir (mkdir s1 IMAGES_DIR) THUMBS_DIR"
      using True files by (simp add: main_generate_thumbs_unfold)
    also have "\<dots> = s1" using dirs by (simp add: mkdir_exists)
    finally show ?thesis using first by simp
  next
    case False
    define names where "names = sort (jpg_files s)"
    obtain s2 evs where loop: "thumbs_loop lib names s1 = (s2, evs)"
      by (cases "thumbs_loop lib names s1")
    have first: "fst (main_generate_thumbs lib s) = s2"
      using False loop by (simp add: main_generate_thumbs_unfold s1_def names_def)
    note inv = thumbs_loop_invariant [OF loop]
    have dirs2: "dir_exists s2 IMAGES_DIR" "dir_exists s2 THUMBS_DIR"
      using inv dirs by (simp_all add: dir_exists_def)
    have same: "mkdir (mkdir s2 IMAGES_DIR) THUMBS_DIR = s2"
      using dirs2 by (simp add: mkdir_exists)
    have files2: "jpg_files s2 = jpg_files s"
      using inv files jpg_files_cong [of s2 s1] by simp
    have "fst (thumbs_loop lib names s2) = s2"
      using thumbs_loop_settled [OF loop dirs(2)] by (rule thumbs_loop_unchanged)
    then have "fst (main_generate_thumbs lib s2) = s2"
      using False files2 same by (simp add: main_generate_thumbs_unfold names_def)
    then show ?thesis using first by simp
  qed
qed

lemma jpg_files_dir: "jpg_files s \<noteq> [] \<Longrightarrow> dir_exists s IMAGES_DIR"
  using jpg_files_no_dir [of s] by blast

lemma main_resize_for_web_run:
  assumes "jpg_files s \<noteq> []"
  shows "\<exists>s' evs crash.
    web_loop lib (sort (jpg_files s)) (mkdir s BACKUP_DIR) = (s', evs, crash) \<and>
    main_resize_for_web lib s =
      (s', [Found (length (jpg_files s)), Settings MAX_DIMENSION QUALITY, Creating_backup] @
           evs @ (case crash of None \<Rightarrow> [Done_web (length (jpg_files s))]
                  | Some e \<Rightarrow> [Traceback e])) \<and>
    List.map_filter reported (snd (main_resize_for_web lib s)) = List.map_filter reported evs"
proof -
  obtain s' evs crash where
    loop: "web_loop lib (sort (jpg_files s)) (mkdir s BACKUP_DIR) = (s', evs, crash)"
    by (cases "web_loop lib (sort (jpg_files s)) (mkdir s BACKUP_DIR)")
  have run: "main_resize_for_web lib s =
      (s', [Found (length (jpg_files s)), Settings MAX_DIMENSION QUALITY, Creating_backup] @
           evs @ (case crash of None \<Rightarrow> [Done_web (length (jpg_files s))]
                  | Some e \<Rightarrow> [Traceback e]))"
    using assms jpg_files_dir [OF assms] loop
    by (simp add: main_resize_for_web_def Let_def)
  have "List.map_filter reported (snd (main_resize_for_web lib s)) = List.map_filter reported evs"
    unfolding run by (cases crash) (simp_all add: List.map_filter_def)
  then show ?thesis using loop run by blast
qed

lemma main_resize_for_web_idle:
  "jpg_files s = [] \<Longrightarrow> main_resize_for_web lib s =
     (s, if dir_exists s IMAGES_DIR then [No_files_found] else [Images_dir_missing])"
  by (simp add: main_resize_for_web_def Let_def)

lemma main_resize_for_web_keeps_backups:
  assumes "read_file s (BACKUP_DIR, name) = Some old"
  shows "read_file (fst (main_resize_for_web lib s)) (BACKUP_DIR, name) = Some old"
proof (cases "jpg_files s = []")
  case True
  then show ?thesis using assms by (simp add: main_resize_for_web_idle)
next
  case False
  obtain s' evs crash where
    loop: "web_loop lib (sort (jpg_files s)) (mkdir s BACKUP_DIR) = (s', evs, crash)"
    and run: "fst (main_resize_for_web lib s) = s'"
    using main_resize_for_web_run [OF False, of lib] by force
  have "read_file (mkdir s BACKUP_DIR) (BACKUP_DIR, name) = Some old"
    using assms by (simp add: read_file_mkdir)
  then show ?thesis using web_loop_backups [OF loop] run by blast
qed

lemma main_resize_for_web_backs_up:
  assumes listed: "name \<in> set (List.map_filter reported (snd (main_resize_for_web lib s)))"
    and absent: "\<not> path_exists s (BACKUP_DIR, name)"
  shows "\<exists>original. read_file s (IMAGES_DIR, name) = Some original \<and>
         read_file (fst (main_resize_for_web lib s)) (BACKUP_DIR, name) = Some original \<and>
         read_file (fst (main_resize_for_web lib (fst (main_resize_for_web lib s))))
           (BACKUP_DIR, name) = Some original"
proof -
  have nonempty: "jpg_files s \<noteq> []"
    using listed by (auto simp: main_resize_for_web_idle List.map_filter_def split: if_splits)
  obtain s' evs crash where
    loop: "web_loop lib (sort (jpg_files s)) (mkdir s BACKUP_DIR) = (s', evs, crash)"
    and run: "fst (main_resize_for_web lib s) = s'"
    and rep: "List.map_filter reported (snd (main_resize_for_web lib s)) =
      List.map_filter reported evs"
    using main_resize_for_web_run [OF nonempty, of lib] by force
  have made: "\<forall>name \<in> set (List.map_filter reported evs).
      \<not> path_exists (mkdir s BACKUP_DIR) (BACKUP_DIR, name) \<longrightarrow>
      (\<exists>original. read_file (mkdir s BACKUP_DIR) (IMAGES_DIR, name) = Some original \<and>
         read_file s' (BACKUP_DIR, name) = Some original)"
    using web_loop_backups [OF loop] by (rule conjunct2 [THEN conjunct1])
  obtain original where original: "read_file s (IMAGES_DIR, name) = Some original"
    and first: "read_file s' (BACKUP_DIR, name) = Some original"
    using made listed absent rep by (auto simp: path_exists_mkdir read_file_mkdir)
  have "read_file (fst (main_resize_for_web lib s')) (BACKUP_DIR, name) = Some original"
    using first by (rule main_resize_for_web_keeps_backups)
  then show ?thesis using original first run by simp
qed

lemma main_resize_for_web_completes:
  assumes "jpg_files s \<noteq> []"
    and "\<forall>n \<in> set (jpg_files s). path_exists s (BACKUP_DIR, n) \<or>
           (\<exists>b. read_file s (IMAGES_DIR, n) = Some b)"
  shows "\<exists>s' evs.
    main_resize_for_web lib s =
      (s', [Found (length (jpg_files s)), Settings MAX_DIMENSION QUALITY, Creating_backup] @
           evs @ [Done_web (length (jpg_files s))]) \<and>
    List.map_filter reported evs = sort (jpg_files s) \<and>
    List.map_filter reported (snd (main_resize_for_web lib s)) = sort (jpg_files s)"
proof -
  have dir: "dir_exists (mkdir s BACKUP_DIR) BACKUP_DIR" by (simp add: dir_exists_mkdir)
  have ok: "\<forall>n \<in> set (sort (jpg_files s)). path_exists (mkdir s BACKUP_DIR) (BACKUP_DIR, n) \<or>
           (\<exists>b. read_file (mkdir s BACKUP_DIR) (IMAGES_DIR, n) = Some b)"
    using assms(2) by (simp add: path_exists_mkdir read_file_mkdir)
  obtain s' evs where
    loop: "web_loop lib (sort (jpg_files s)) (mkdir s BACKUP_DIR) = (s', evs, None)"
    using web_loop_no_crash [OF dir ok] by blast
  have rep: "List.map_filter reported evs = sort (jpg_files s)"
    using web_loop_backups [OF loop] by simp
  have run: "main_resize_for_web lib s =
      (s', [Found (length (jpg_files s)), Settings MAX_DIMENSION QUALITY, Creating_backup] @
           evs @ [Done_web (length (jpg_files s))])"
    using main_resize_for_web_run [OF assms(1), of lib] loop by auto
  have "List.map_filter reported (snd (main_resize_for_web lib s)) = sort (jpg_files s)"
    using main_resize_for_web_run [OF assms(1), of lib] loop rep by auto
  then show ?thesis using run rep by blast
qed

section \<open>Failures of one file\<close>

text \<open>
  Saving over a file that exists, and what either script prints when decoding, resizing or
  encoding one file raises.
\<close>

lemma open_path_regular:
  "open_path lib s p = Inr img \<Longrightarrow> \<exists>al b. s (fst p) = Some al \<and> read_file s p = Some b"
  by (auto simp: open_path_def open_read_def read_file_def lookup_def
      split: option.splits node.splits sum.splits)

lemma save_path_over:
  assumes "s (fst p) = Some al" "read_file s p = Some old"
  shows "save_path lib s img p params =
    (case Image_save lib img params of
       Encoded b \<Rightarrow> Inr (s(fst p := Some (AList.update (snd p) (Regular b) al)))
     | Refused e \<Rightarrow> Inl (e, s)
     | Broken e partial \<Rightarrow>
         Inl (e, s(fst p := Some (AList.update (snd p) (Regular partial) al))))"
  using write_file_over_eq [OF assms] read_file_exists [OF assms(2)]
  by (simp add: save_path_def split: saved.splits)
















section \<open>The claims of the specification\<close>

text \<open>
  \<^bold>\<open>C1\<close> (amended).  The specification gives the thumbnail width as the height-scaled width
  rounded to nearest.  The script truncates: for an image of 1000 by 1500 pixels it asks for
  166 columns, while rounding \<open>166.67\<close> gives 167.  What holds: for every decoded image with a
  positive height (sides below \<open>2 ^ 31\<close>), the size the generator asks of the resize operation
  is the height 250 and the width \<open>int(250 * (width / height))\<close>, the double-precision product
  truncated toward zero; this width is never above the exact \<open>250 * width / height\<close> and at
  most one pixel below it.  If the library refuses that size nothing is written and the error
  is reported.  Whenever the file is reported as generated, the thumbnail written is the
  encoding, at quality 85 with optimisation, of the image resized to that size.
\<close>

theorem thumbnail_width_truncated:
  assumes "open_path lib s image_path = Inr img"
    and "0 \<le> width img" and "0 < height img"
    and "width img < 2 ^ 31" and "height img < 2 ^ 31"
  shows "\<exists>new_width.
    generate_thumbnail lib s image_path thumb_path THUMBNAIL_HEIGHT =
      (case Image_resize lib img (new_width, 250) LANCZOS of
         Inl e \<Rightarrow> (s, [Error_processing (snd image_path) e])
       | Inr img_resized \<Rightarrow>
           (case save_path lib s img_resized thumb_path
                   \<lparr>quality = 85, optimize = True, exif_bytes = None\<rparr> of
              Inl (e, s1) \<Rightarrow> (s1, [Error_processing (snd image_path) e])
            | Inr s' \<Rightarrow> (s', [Generated (snd thumb_path)]))) \<and>
    new_width = \<lfloor>fl (250 * fl (of_int (width img) / of_int (height img)))\<rfloor> \<and>
    of_int new_width \<le> (250 * of_int (width img) / of_int (height img) :: rat) \<and>
    (250 * of_int (width img) / of_int (height img) :: rat) \<le> of_int new_width + 1 \<and>
    (snd (generate_thumbnail lib s image_path thumb_path THUMBNAIL_HEIGHT) =
       [Generated (snd thumb_path)] \<longrightarrow>
     (\<exists>img_resized b.
        Image_resize lib img (new_width, 250) LANCZOS = Inr img_resized \<and>
        Image_save lib img_resized \<lparr>quality = 85, optimize = True, exif_bytes = None\<rparr> =
          Encoded b \<and>
        read_file (fst (generate_thumbnail lib s image_path thumb_path THUMBNAIL_HEIGHT))
          thumb_path = Some b))"
proof -
  define n where
    "n = int_of_float (fmul (of_int 250) (fl (of_int (width img) / of_int (height img))))"
  have small: "3 * (250 * width img + height img) \<le> 2 ^ 53" using assms(4,5) by simp
  have sz: "thumbnail_size img THUMBNAIL_HEIGHT = Inr (n, 250)"
    unfolding n_def THUMBNAIL_HEIGHT_def using assms(3) by (simp add: thumbnail_size_eq)
  have fl: "n = \<lfloor>fl (250 * fl (of_int (width img) / of_int (height img)))\<rfloor>"
    unfolding n_def using scale_trunc_floor [OF assms(2,3), of 250] by simp
  have "n * height img \<le> 250 * width img" "250 * width img \<le> (n + 1) * height img"
    unfolding n_def using scale_trunc_bounds(2,3) [OF assms(2,3) _ small] by simp_all
  then have bounds: "(of_int n :: rat) \<le> of_int 250 * of_int (width img) / of_int (height img)"
    "(of_int 250 :: rat) * of_int (width img) / of_int (height img) \<le> of_int n + 1"
    using assms(3) by (simp_all only: cross_bounds_rat)
  have written: "\<exists>img_resized b.
        Image_resize lib img (n, 250) LANCZOS = Inr img_resized \<and>
        Image_save lib img_resized \<lparr>quality = 85, optimize = True, exif_bytes = None\<rparr> =
          Encoded b \<and>
        read_file (fst (generate_thumbnail lib s image_path thumb_path THUMBNAIL_HEIGHT))
          thumb_path = Some b"
    if "snd (generate_thumbnail lib s image_path thumb_path THUMBNAIL_HEIGHT) =
       [Generated (snd thumb_path)]"
    using assms(1) sz that by (rule generate_thumbnail_generated)
  show ?thesis
    by (intro exI [of _ n])
      (use generate_thumbnail_opened [OF assms(1) sz] fl bounds written in simp)
qed

theorem thumbnail_width_truncated_witness:
  "open_path pillow ready_fs (IMAGES_DIR, ''a.JPG'') =
     Inr \<lparr>width = 1000, height = 1500, mode = ''RGB'', exif = []\<rparr> \<and>
   snd (generate_thumbnail pillow ready_fs (IMAGES_DIR, ''a.JPG'') (THUMBS_DIR, ''a.JPG'')
          THUMBNAIL_HEIGHT) = [Generated ''a.JPG''] \<and>
   read_file (fst (generate_thumbnail pillow ready_fs (IMAGES_DIR, ''a.JPG'')
                     (THUMBS_DIR, ''a.JPG'') THUMBNAIL_HEIGHT)) (THUMBS_DIR, ''a.JPG'') =
     Some [255, 216, 166, 250, 85] \<and>
   (\<exists>new_width.
      new_width = \<lfloor>fl (250 * fl (1000 / 1500))\<rfloor> \<and>
      of_int new_width \<le> (250 * 1000 / 1500 :: rat) \<and>
      (250 * 1000 / 1500 :: rat) \<le> of_int new_width + 1 \<and>
      (\<exists>img_resized b.
         Image_resize pillow \<lparr>width = 1000, height = 1500, mode = ''RGB'', exif = []\<rparr>
           (new_width, 250) LANCZOS = Inr img_resized \<and>
         Image_save pillow img_resized \<lparr>quality = 85, optimize = True, exif_bytes = None\<rparr> =
           Encoded b \<and>
         read_file (fst (generate_thumbnail pillow ready_fs (IMAGES_DIR, ''a.JPG'')
                           (THUMBS_DIR, ''a.JPG'') THUMBNAIL_HEIGHT)) (THUMBS_DIR, ''a.JPG'') =
           Some b))"
proof -
  have h: "open_path pillow ready_fs (IMAGES_DIR, ''a.JPG'') =
     Inr \<lparr>width = 1000, height = 1500, mode = ''RGB'', exif = []\<rparr>"
    by code_simp
  have g: "snd (generate_thumbnail pillow ready_fs (IMAGES_DIR, ''a.JPG'') (THUMBS_DIR, ''a.JPG'')
          THUMBNAIL_HEIGHT) = [Generated ''a.JPG'']"
    by code_simp
  have r: "read_file (fst (generate_thumbnail pillow ready_fs (IMAGES_DIR, ''a.JPG'')
                     (THUMBS_DIR, ''a.JPG'') THUMBNAIL_HEIGHT)) (THUMBS_DIR, ''a.JPG'') =
     Some [255, 216, 166, 250, 85]"
    by code_simp
  obtain new_width where
    w: "new_width = \<lfloor>fl (250 * fl (1000 / 1500))\<rfloor>"
      "of_int new_width \<le> (250 * 1000 / 1500 :: rat)"
      "(250 * 1000 / 1500 :: rat) \<le> of_int new_width + 1"
    and out: "snd (generate_thumbnail pillow ready_fs (IMAGES_DIR, ''a.JPG'')
          (THUMBS_DIR, ''a.JPG'') THUMBNAIL_HEIGHT) = [Generated ''a.JPG''] \<longrightarrow>
     (\<exists>img_resized b.
         Image_resize pillow \<lparr>width = 1000, height = 1500, mode = ''RGB'', exif = []\<rparr>
           (new_width, 250) LANCZOS = Inr img_resized \<and>
         Image_save pillow img_resized \<lparr>quality = 85, optimize = True, exif_bytes = None\<rparr> =
           Encoded b \<and>
         read_file (fst (generate_thumbnail pillow ready_fs (IMAGES_DIR, ''a.JPG'')
                           (THUMBS_DIR, ''a.JPG'') THUMBNAIL_HEIGHT)) (THUMBS_DIR, ''a.JPG'') =
           Some b)"
    using thumbnail_width_truncated [OF h, of "(THUMBS_DIR, ''a.JPG'')"] by auto
  show ?thesis using h g r w out by blast
qed

theorem thumbnail_width_not_rounded:
  "thumbnail_size \<lparr>width = 1000, height = 1500, mode = ''RGB'', exif = []\<rparr> THUMBNAIL_HEIGHT =
     Inr (166, 250) \<and>
   round (250 * 1000 / 1500 :: rat) = 167"
  by code_simp

text \<open>
  \<^bold>\<open>C2\<close> (amended).  The specification has every image whose longest side exceeds 3000
  scaled.  A panorama of 5000 by 1 is not: its short side comes out as 0, the library
  refuses the size, and the file stays as it was.  What holds: for every oriented image whose
  longest side exceeds \<open>MAX_DIMENSION = 3000\<close> (sides positive and below \<open>2 ^ 31\<close>), the size the
  web resizer asks of the resize operation has its longer side exactly 3000 and its shorter
  side the truncation of \<open>(shorter / longer) * 3000\<close>, computed in double precision as the
  script does; that side is never above the exact proportional value and at most one pixel
  below it, and it is 0 when the longer side is more than 3000 times the shorter.  If the
  library refuses the size the file system is unchanged and the error is reported.  Whenever the
  file is reported as resized, it holds the encoding, at quality 80 with optimisation and empty
  EXIF, of the image resized to that size.
\<close>

theorem web_resize_long_side:
  assumes "open_path lib s p = Inr opened" and "Image_copy lib opened = Inr copied"
    and "exif_transpose lib copied = Inr (Some img)"
    and "0 < width img" and "0 < height img"
    and "width img < 2 ^ 31" and "height img < 2 ^ 31"
    and "MAX_DIMENSION < max (width img) (height img)"
  shows "\<exists>new_width new_height.
    resize_for_web lib s p MAX_DIMENSION QUALITY =
      (case Image_resize lib img (new_width, new_height) LANCZOS of
         Inl e \<Rightarrow> (s, [Error_processing (snd p) e])
       | Inr img_resized \<Rightarrow>
           (case web_save lib s img_resized p QUALITY of
              Inl (e, s1) \<Rightarrow> (s1, [Error_processing (snd p) e])
            | Inr s' \<Rightarrow>
                (s', [Resized (snd p) (width img) (height img) new_width new_height]))) \<and>
    max new_width new_height = 3000 \<and>
    (if height img < width img
     then new_width = 3000 \<and>
       new_height = \<lfloor>fl (fl (of_int (height img) / of_int (width img)) * 3000)\<rfloor> \<and>
       of_int new_height \<le> (3000 * of_int (height img) / of_int (width img) :: rat) \<and>
       (3000 * of_int (height img) / of_int (width img) :: rat) \<le> of_int new_height + 1 \<and>
       (3000 * height img < width img \<longrightarrow> new_height = 0)
     else new_height = 3000 \<and>
       new_width = \<lfloor>fl (fl (of_int (width img) / of_int (height img)) * 3000)\<rfloor> \<and>
       of_int new_width \<le> (3000 * of_int (width img) / of_int (height img) :: rat) \<and>
       (3000 * of_int (width img) / of_int (height img) :: rat) \<le> of_int new_width + 1 \<and>
       (3000 * width img < height img \<longrightarrow> new_width = 0)) \<and>
    (snd (resize_for_web lib s p MAX_DIMENSION QUALITY) =
       [Resized (snd p) (width img) (height img) new_width new_height] \<longrightarrow>
     (\<exists>img_resized b.
        Image_resize lib img (new_width, new_height) LANCZOS = Inr img_resized \<and>
        Image_save lib img_resized \<lparr>quality = 80, optimize = True, exif_bytes = Some []\<rparr> =
          Encoded b \<and>
        read_file (fst (resize_for_web lib s p MAX_DIMENSION QUALITY)) p = Some b))"
proof (cases "height img < width img")
  case True
  define n where
    "n = int_of_float (fmul (of_int 3000) (fl (of_int (height img) / of_int (width img))))"
  have le: "height img \<le> width img" using True by simp
  have sz: "web_size (width img) (height img) MAX_DIMENSION = Inr (3000, n)"
    unfolding n_def MAX_DIMENSION_def using True assms(4) by (simp add: web_size_wide)
  have zero: "n = 0" if "3000 * height img < width img"
    unfolding n_def using assms(5) le assms(6) that by (rule short_side_zero)
  have written: "\<exists>img_resized b.
        Image_resize lib img (3000, n) LANCZOS = Inr img_resized \<and>
        Image_save lib img_resized \<lparr>quality = 80, optimize = True, exif_bytes = Some []\<rparr> =
          Encoded b \<and>
        read_file (fst (resize_for_web lib s p MAX_DIMENSION QUALITY)) p = Some b"
    if "snd (resize_for_web lib s p MAX_DIMENSION QUALITY) =
       [Resized (snd p) (width img) (height img) 3000 n]"
    using resize_for_web_resized [OF assms(1-3) assms(8) sz that] by (simp add: QUALITY_def)
  show ?thesis
    by (rule exI [of _ 3000], rule exI [of _ n])
      (use resize_for_web_large [OF assms(1-3) assms(8) sz] True zero written
        short_side [OF assms(5) le assms(6), folded n_def] in simp)
next
  case False
  define n where
    "n = int_of_float (fmul (of_int 3000) (fl (of_int (width img) / of_int (height img))))"
  have le: "width img \<le> height img" using False by simp
  have sz: "web_size (width img) (height img) MAX_DIMENSION = Inr (n, 3000)"
    unfolding n_def MAX_DIMENSION_def using False assms(5) by (simp add: web_size_tall)
  have zero: "n = 0" if "3000 * width img < height img"
    unfolding n_def using assms(4) le assms(7) that by (rule short_side_zero)
  have written: "\<exists>img_resized b.
        Image_resize lib img (n, 3000) LANCZOS = Inr img_resized \<and>
        Image_save lib img_resized \<lparr>quality = 80, optimize = True, exif_bytes = Some []\<rparr> =
          Encoded b \<and>
        read_file (fst (resize_for_web lib s p MAX_DIMENSION QUALITY)) p = Some b"
    if "snd (resize_for_web lib s p MAX_DIMENSION QUALITY) =
       [Resized (snd p) (width img) (height img) n 3000]"
    using resize_for_web_resized [OF assms(1-3) assms(8) sz that] by (simp add: QUALITY_def)
  show ?thesis
    by (rule exI [of _ n], rule exI [of _ 3000])
      (use resize_for_web_large [OF assms(1-3) assms(8) sz] False zero written
        short_side [OF assms(4) le assms(7), folded n_def] in simp)
qed

theorem web_resize_long_side_witness:
  "open_path pillow example_fs (IMAGES_DIR, ''b.jpg'') =
     Inr \<lparr>width = 4000, height = 3000, mode = ''RGB'', exif = [(274, 6)]\<rparr> \<and>
   Image_copy pillow \<lparr>width = 4000, height = 3000, mode = ''RGB'', exif = [(274, 6)]\<rparr> =
     Inr \<lparr>width = 4000, height = 3000, mode = ''RGB'', exif = [(274, 6)]\<rparr> \<and>
   exif_transpose pillow \<lparr>width = 4000, height = 3000, mode = ''RGB'', exif = [(274, 6)]\<rparr> =
     Inr (Some \<lparr>width = 3000, height = 4000, mode = ''RGB'', exif = []\<rparr>) \<and>
   MAX_DIMENSION < max (3000 :: int) 4000 \<and>
   snd (resize_for_web pillow example_fs (IMAGES_DIR, ''b.jpg'') MAX_DIMENSION QUALITY) =
     [Resized ''b.jpg'' 3000 4000 2250 3000] \<and>
   read_file (fst (resize_for_web pillow example_fs (IMAGES_DIR, ''b.jpg'')
                     MAX_DIMENSION QUALITY)) (IMAGES_DIR, ''b.jpg'') =
     Some [255, 216, 2250, 3000, 80] \<and>
   (\<exists>new_width new_height.
      max new_width new_height = 3000 \<and>
      new_height = 3000 \<and>
      new_width = \<lfloor>fl (fl (3000 / 4000) * 3000)\<rfloor> \<and>
      of_int new_width \<le> (3000 * 3000 / 4000 :: rat) \<and>
      (3000 * 3000 / 4000 :: rat) \<le> of_int new_width + 1 \<and>
      (snd (resize_for_web pillow example_fs (IMAGES_DIR, ''b.jpg'') MAX_DIMENSION QUALITY) =
         [Resized ''b.jpg'' 3000 4000 new_width new_height] \<and>
       (\<exists>img_resized b.
          Image_resize pillow \<lparr>width = 3000, height = 4000, mode = ''RGB'', exif = []\<rparr>
            (new_width, new_height) LANCZOS = Inr img_resized \<and>
          Image_save pillow img_resized \<lparr>quality = 80, optimize = True, exif_bytes = Some []\<rparr> =
            Encoded b \<and>
          read_file (fst (resize_for_web pillow example_fs (IMAGES_DIR, ''b.jpg'')
                            MAX_DIMENSION QUALITY)) (IMAGES_DIR, ''b.jpg'') = Some b)))"
proof -
  have h1: "open_path pillow example_fs (IMAGES_DIR, ''b.jpg'') =
     Inr \<lparr>width = 4000, height = 3000, mode = ''RGB'', exif = [(274, 6)]\<rparr>" by code_simp
  have h2: "Image_copy pillow \<lparr>width = 4000, height = 3000, mode = ''RGB'', exif = [(274, 6)]\<rparr> =
     Inr \<lparr>width = 4000, height = 3000, mode = ''RGB'', exif = [(274, 6)]\<rparr>" by code_simp
  have h3: "exif_transpose pillow
      \<lparr>width = 4000, height = 3000, mode = ''RGB'', exif = [(274, 6)]\<rparr> =
     Inr (Some \<lparr>width = 3000, height = 4000, mode = ''RGB'', exif = []\<rparr>)" by code_simp
  have h4: "MAX_DIMENSION < max (3000 :: int) 4000" by (simp add: MAX_DIMENSION_def)
  have evs: "snd (resize_for_web pillow example_fs (IMAGES_DIR, ''b.jpg'') MAX_DIMENSION QUALITY)
     = [Resized ''b.jpg'' 3000 4000 2250 3000]" by code_simp
  have r: "read_file (fst (resize_for_web pillow example_fs (IMAGES_DIR, ''b.jpg'')
       MAX_DIMENSION QUALITY)) (IMAGES_DIR, ''b.jpg'') = Some [255, 216, 2250, 3000, 80]"
    by code_simp
  have v: "\<lfloor>fl (fl (3 / 4) * 3000)\<rfloor> = (2250 :: int)" by code_simp
  note t = web_resize_long_side [OF h1 h2 h3, unfolded MAX_DIMENSION_def, simplified,
      THEN conjunct2, unfolded v]
  show ?thesis
    using h1 h2 h3 h4 r t by (auto simp: MAX_DIMENSION_def evs [unfolded MAX_DIMENSION_def] v)
qed

theorem panorama_is_not_scaled:
  "open_path pillow wide_fs (IMAGES_DIR, ''wide.jpg'') =
     Inr \<lparr>width = 5000, height = 1, mode = ''RGB'', exif = []\<rparr> \<and>
   web_size 5000 1 MAX_DIMENSION = Inr (3000, 0) \<and>
   snd (resize_for_web pillow wide_fs (IMAGES_DIR, ''wide.jpg'') MAX_DIMENSION QUALITY) =
     [Error_processing ''wide.jpg'' ''height and width must be > 0''] \<and>
   read_file (fst (resize_for_web pillow wide_fs (IMAGES_DIR, ''wide.jpg'')
                     MAX_DIMENSION QUALITY)) (IMAGES_DIR, ''wide.jpg'') =
     Some (jpeg 5000 1 [])"
  by code_simp

text \<open>
  \<^bold>\<open>C3\<close> (amended).  The specification has every image whose longest side is at most 3000
  re-encoded, and nothing else.  A file the encoder gives up on after the target has been
  opened is cut short instead: a PNG with transparency of 400 by 300, named \<^verbatim>\<open>x.jpg\<close>, is left
  empty.  What holds: for every image whose longest side after orientation correction is at
  most \<open>MAX_DIMENSION\<close>, the resize operation is not involved; the web resizer hands the
  oriented image itself to the encoder, with quality 80, optimisation on and empty EXIF.  If the
  encoder returns, its output replaces the file, which is reported as optimised with the
  dimensions of the oriented image.  If it raises before the target is opened, the file system
  is unchanged; if it raises after, the file holds what had been written until then.  In both
  cases the error is reported.  Nothing else in the file system changes.
\<close>

theorem small_image_only_reencoded:
  assumes "open_path lib s p = Inr opened" and "Image_copy lib opened = Inr copied"
    and "exif_transpose lib copied = Inr (Some img)"
    and "max (width img) (height img) \<le> MAX_DIMENSION"
  shows "\<exists>al. s (fst p) = Some al \<and>
    resize_for_web lib s p MAX_DIMENSION QUALITY =
      (case Image_save lib img \<lparr>quality = 80, optimize = True, exif_bytes = Some []\<rparr> of
         Encoded b \<Rightarrow> (s(fst p := Some (AList.update (snd p) (Regular b) al)),
                       [Optimized (snd p) (width img) (height img)])
       | Refused e \<Rightarrow> (s, [Error_processing (snd p) e])
       | Broken e partial \<Rightarrow>
           (s(fst p := Some (AList.update (snd p) (Regular partial) al)),
            [Error_processing (snd p) e]))"
proof -
  obtain al old where al: "s (fst p) = Some al" and old: "read_file s p = Some old"
    using open_path_regular [OF assms(1)] by blast
  have small: "(max (width img) (height img) \<le> MAX_DIMENSION) = True" using assms(4) by simp
  have "resize_for_web lib s p MAX_DIMENSION QUALITY =
      (case Image_save lib img \<lparr>quality = 80, optimize = True, exif_bytes = Some []\<rparr> of
         Encoded b \<Rightarrow> (s(fst p := Some (AList.update (snd p) (Regular b) al)),
                       [Optimized (snd p) (width img) (height img)])
       | Refused e \<Rightarrow> (s, [Error_processing (snd p) e])
       | Broken e partial \<Rightarrow>
           (s(fst p := Some (AList.update (snd p) (Regular partial) al)),
            [Error_processing (snd p) e]))"
    using assms(1-3)
    by (simp add: resize_for_web_def resize_body_def web_save_def save_path_over [OF al old]
        small QUALITY_def del: max.bounded_iff split: saved.split)
  then show ?thesis using al by blast
qed

theorem small_image_only_reencoded_witness:
  "open_path pillow example_fs (IMAGES_DIR, ''a.JPG'') =
     Inr \<lparr>width = 1000, height = 1500, mode = ''RGB'', exif = []\<rparr> \<and>
   Image_copy pillow \<lparr>width = 1000, height = 1500, mode = ''RGB'', exif = []\<rparr> =
     Inr \<lparr>width = 1000, height = 1500, mode = ''RGB'', exif = []\<rparr> \<and>
   exif_transpose pillow \<lparr>width = 1000, height = 1500, mode = ''RGB'', exif = []\<rparr> =
     Inr (Some \<lparr>width = 1000, height = 1500, mode = ''RGB'', exif = []\<rparr>) \<and>
   max (1000 :: int) 1500 \<le> MAX_DIMENSION \<and>
   Image_save pillow \<lparr>width = 1000, height = 1500, mode = ''RGB'', exif = []\<rparr>
      \<lparr>quality = 80, optimize = True, exif_bytes = Some []\<rparr> =
     Encoded [255, 216, 1000, 1500, 80] \<and>
   (\<exists>al. example_fs IMAGES_DIR = Some al \<and>
      resize_for_web pillow example_fs (IMAGES_DIR, ''a.JPG'') MAX_DIMENSION QUALITY =
        (example_fs(IMAGES_DIR :=
           Some (AList.update ''a.JPG'' (Regular [255, 216, 1000, 1500, 80]) al)),
         [Optimized ''a.JPG'' 1000 1500]))"
proof -
  have h1: "open_path pillow example_fs (IMAGES_DIR, ''a.JPG'') =
     Inr \<lparr>width = 1000, height = 1500, mode = ''RGB'', exif = []\<rparr>" by code_simp
  have h2: "Image_copy pillow \<lparr>width = 1000, height = 1500, mode = ''RGB'', exif = []\<rparr> =
     Inr \<lparr>width = 1000, height = 1500, mode = ''RGB'', exif = []\<rparr>" by code_simp
  have h3: "exif_transpose pillow \<lparr>width = 1000, height = 1500, mode = ''RGB'', exif = []\<rparr> =
     Inr (Some \<lparr>width = 1000, height = 1500, mode = ''RGB'', exif = []\<rparr>)" by code_simp
  have h4: "max (1000 :: int) 1500 \<le> MAX_DIMENSION" by (simp add: MAX_DIMENSION_def)
  have save: "Image_save pillow \<lparr>width = 1000, height = 1500, mode = ''RGB'', exif = []\<rparr>
      \<lparr>quality = 80, optimize = True, exif_bytes = Some []\<rparr> =
      Encoded [255, 216, 1000, 1500, 80]"
    by code_simp
  show ?thesis
    using h1 h2 h3 h4 small_image_only_reencoded [OF h1 h2 h3] by (simp add: save)
qed

theorem png_named_jpg_is_truncated:
  "open_path pillow png_fs (IMAGES_DIR, ''x.jpg'') =
     Inr \<lparr>width = 400, height = 300, mode = ''RGBA'', exif = []\<rparr> \<and>
   exif_transpose pillow \<lparr>width = 400, height = 300, mode = ''RGBA'', exif = []\<rparr> =
     Inr (Some \<lparr>width = 400, height = 300, mode = ''RGBA'', exif = []\<rparr>) \<and>
   max (400 :: int) 300 \<le> MAX_DIMENSION \<and>
   read_file png_fs (IMAGES_DIR, ''x.jpg'') = Some (png 400 300) \<and>
   snd (resize_for_web pillow png_fs (IMAGES_DIR, ''x.jpg'') MAX_DIMENSION QUALITY) =
     [Error_processing ''x.jpg'' ''cannot write mode RGBA as JPEG''] \<and>
   read_file (fst (resize_for_web pillow png_fs (IMAGES_DIR, ''x.jpg'') MAX_DIMENSION QUALITY))
     (IMAGES_DIR, ''x.jpg'') = Some [] \<and>
   Image_open pillow [] = Inl ''cannot identify image file''"
  by code_simp

text \<open>
  \<^bold>\<open>C4\<close>.  A run of the web resizer leaves every backup that already exists as it is.  For
  every file the run reports on that had no backup, it leaves a backup equal to the contents
  the file had before the run, although the run overwrites the file itself; a second run keeps
  that backup.  When every JPEG entry without a backup is a file that can be read, this covers
  every JPEG file of the directory.
\<close>

theorem backup_made_once_before_overwrite:
  "(\<forall>name old. read_file s (BACKUP_DIR, name) = Some old \<longrightarrow>
      read_file (fst (main_resize_for_web lib s)) (BACKUP_DIR, name) = Some old) \<and>
   (\<forall>name \<in> set (List.map_filter reported (snd (main_resize_for_web lib s))).
      \<not> path_exists s (BACKUP_DIR, name) \<longrightarrow>
      (\<exists>original. read_file s (IMAGES_DIR, name) = Some original \<and>
         read_file (fst (main_resize_for_web lib s)) (BACKUP_DIR, name) = Some original \<and>
         read_file (fst (main_resize_for_web lib (fst (main_resize_for_web lib s))))
           (BACKUP_DIR, name) = Some original)) \<and>
   ((\<forall>n \<in> set (jpg_files s). path_exists s (BACKUP_DIR, n) \<or>
        (\<exists>b. read_file s (IMAGES_DIR, n) = Some b)) \<longrightarrow>
    (\<forall>name \<in> set (jpg_files s). \<not> path_exists s (BACKUP_DIR, name) \<longrightarrow>
      (\<exists>original. read_file s (IMAGES_DIR, name) = Some original \<and>
         read_file (fst (main_resize_for_web lib s)) (BACKUP_DIR, name) = Some original \<and>
         read_file (fst (main_resize_for_web lib (fst (main_resize_for_web lib s))))
           (BACKUP_DIR, name) = Some original)))"
proof -
  have all: "\<exists>original. read_file s (IMAGES_DIR, name) = Some original \<and>
         read_file (fst (main_resize_for_web lib s)) (BACKUP_DIR, name) = Some original \<and>
         read_file (fst (main_resize_for_web lib (fst (main_resize_for_web lib s))))
           (BACKUP_DIR, name) = Some original"
    if ok: "\<forall>n \<in> set (jpg_files s). path_exists s (BACKUP_DIR, n) \<or>
        (\<exists>b. read_file s (IMAGES_DIR, n) = Some b)"
      and listed: "name \<in> set (jpg_files s)" and absent: "\<not> path_exists s (BACKUP_DIR, name)"
    for name
  proof -
    have nonempty: "jpg_files s \<noteq> []" using listed by auto
    have "List.map_filter reported (snd (main_resize_for_web lib s)) = sort (jpg_files s)"
      using main_resize_for_web_completes [OF nonempty ok, of lib] by blast
    then have "name \<in> set (List.map_filter reported (snd (main_resize_for_web lib s)))"
      using listed by simp
    then show ?thesis using absent by (rule main_resize_for_web_backs_up)
  qed
  show ?thesis
    using main_resize_for_web_keeps_backups main_resize_for_web_backs_up all by blast
qed

theorem backup_made_once_before_overwrite_witness:
  "read_file backed_fs (BACKUP_DIR, ''a.JPG'') = Some [7, 7] \<and>
   jpg_files backed_fs = [''b.jpg'', ''tall.jpg'', ''bad.jpeg'', ''a.JPG''] \<and>
   List.map_filter reported (snd (main_resize_for_web pillow backed_fs)) =
     [''a.JPG'', ''b.jpg'', ''bad.jpeg'', ''tall.jpg''] \<and>
   \<not> path_exists backed_fs (BACKUP_DIR, ''b.jpg'') \<and>
   read_file backed_fs (IMAGES_DIR, ''b.jpg'') = Some (jpeg 4000 3000 [(274, 6)]) \<and>
   read_file (fst (main_resize_for_web pillow backed_fs)) (IMAGES_DIR, ''b.jpg'') =
     Some [255, 216, 2250, 3000, 80] \<and>
   read_file (fst (main_resize_for_web pillow backed_fs)) (BACKUP_DIR, ''a.JPG'') = Some [7, 7] \<and>
   read_file (fst (main_resize_for_web pillow backed_fs)) (BACKUP_DIR, ''b.jpg'') =
     Some (jpeg 4000 3000 [(274, 6)]) \<and>
   read_file (fst (main_resize_for_web pillow (fst (main_resize_for_web pillow backed_fs))))
     (BACKUP_DIR, ''b.jpg'') = Some (jpeg 4000 3000 [(274, 6)])"
proof -
  have files: "jpg_files backed_fs = [''b.jpg'', ''tall.jpg'', ''bad.jpeg'', ''a.JPG'']"
    by code_simp
  have h1: "read_file backed_fs (BACKUP_DIR, ''a.JPG'') = Some [7, 7]" by code_simp
  have h2: "List.map_filter reported (snd (main_resize_for_web pillow backed_fs)) =
     [''a.JPG'', ''b.jpg'', ''bad.jpeg'', ''tall.jpg'']" by code_simp
  have h3: "\<not> path_exists backed_fs (BACKUP_DIR, ''b.jpg'')" by code_simp
  have h4: "read_file backed_fs (IMAGES_DIR, ''b.jpg'') = Some (jpeg 4000 3000 [(274, 6)])"
    by code_simp
  have h5: "read_file backed_fs (IMAGES_DIR, ''tall.jpg'') = Some (jpeg 3 1000 [])"
    "read_file backed_fs (IMAGES_DIR, ''bad.jpeg'') = Some [0]"
    "read_file backed_fs (IMAGES_DIR, ''a.JPG'') = Some (jpeg 1000 1500 [])"
    by code_simp+
  have h6: "read_file (fst (main_resize_for_web pillow backed_fs)) (IMAGES_DIR, ''b.jpg'') =
     Some [255, 216, 2250, 3000, 80]" by code_simp
  show ?thesis
    using backup_made_once_before_overwrite [of backed_fs pillow] files h1 h2 h3 h4 h5 h6
    by auto
qed

text \<open>
  \<^bold>\<open>C5\<close>.  The thumbnail generator never changes a thumbnail that exists: every source
  file with a thumbnail is reported as skipped, whatever the two files contain.  When every
  source file has a thumbnail, a run writes no file and reports one skip per file, and a
  second run always leaves the file system as the first run left it.
\<close>

theorem thumbnails_never_overwritten:
  "(\<forall>name old. read_file s (THUMBS_DIR, name) = Some old \<longrightarrow>
      read_file (fst (main_generate_thumbs lib s)) (THUMBS_DIR, name) = Some old) \<and>
   (\<forall>name \<in> set (jpg_files s). path_exists s (THUMBS_DIR, name) \<longrightarrow>
      Skipped name \<in> set (snd (main_generate_thumbs lib s))) \<and>
   ((\<forall>name \<in> set (jpg_files s). path_exists s (THUMBS_DIR, name)) \<longrightarrow>
      main_generate_thumbs lib s =
        (mkdir (mkdir s IMAGES_DIR) THUMBS_DIR,
         if jpg_files s = [] then [No_files_found]
         else Found (length (jpg_files s)) # map Skipped (sort (jpg_files s)) @ [Done_thumbs])) \<and>
   fst (main_generate_thumbs lib (fst (main_generate_thumbs lib s))) =
     fst (main_generate_thumbs lib s)"
proof -
  define s1 where "s1 = mkdir (mkdir s IMAGES_DIR) THUMBS_DIR"
  define names where "names = sort (jpg_files s)"
  have names: "set names = set (jpg_files s)" unfolding names_def by simp
  have read: "read_file s1 p = read_file s p" for p
    unfolding s1_def by (simp add: read_file_mkdir)
  have exists: "path_exists s1 p = path_exists s p" for p
    unfolding s1_def by (simp add: path_exists_mkdir)
  obtain s2 evs where loop: "thumbs_loop lib names s1 = (s2, evs)"
    by (cases "thumbs_loop lib names s1")
  note inv = thumbs_loop_invariant [OF loop]
  have kept: "read_file (fst (main_generate_thumbs lib s)) (THUMBS_DIR, name) = Some old"
    if "read_file s (THUMBS_DIR, name) = Some old" for name old
  proof (cases "jpg_files s = []")
    case True
    then show ?thesis using that read by (simp add: main_generate_thumbs_unfold s1_def)
  next
    case False
    then have "fst (main_generate_thumbs lib s) = s2"
      using loop by (simp add: main_generate_thumbs_unfold s1_def names_def)
    then show ?thesis using inv that read by simp
  qed
  have skipped: "Skipped name \<in> set (snd (main_generate_thumbs lib s))"
    if "name \<in> set (jpg_files s)" "path_exists s (THUMBS_DIR, name)" for name
  proof -
    have "jpg_files s \<noteq> []" using that(1) by auto
    then have "snd (main_generate_thumbs lib s) = Found (length (jpg_files s)) # evs @ [Done_thumbs]"
      using loop by (simp add: main_generate_thumbs_unfold s1_def names_def)
    moreover have "Skipped name \<in> set evs" using inv that names exists by simp
    ultimately show ?thesis by simp
  qed
  have all: "main_generate_thumbs lib s =
        (mkdir (mkdir s IMAGES_DIR) THUMBS_DIR,
         if jpg_files s = [] then [No_files_found]
         else Found (length (jpg_files s)) # map Skipped (sort (jpg_files s)) @ [Done_thumbs])"
    if "\<forall>name \<in> set (jpg_files s). path_exists s (THUMBS_DIR, name)"
  proof -
    have "\<forall>n \<in> set names. path_exists s1 (THUMBS_DIR, n)" using that names exists by simp
    then have "thumbs_loop lib names s1 = (s1, map Skipped names)"
      by (rule thumbs_loop_all_skipped)
    then show ?thesis by (simp add: main_generate_thumbs_unfold s1_def names_def)
  qed
  show ?thesis using kept skipped all main_generate_thumbs_again by blast
qed

theorem thumbnails_never_overwritten_witness:
  "read_file done_fs (THUMBS_DIR, ''a.JPG'') = Some [9, 9] \<and>
   ''a.JPG'' \<in> set (jpg_files done_fs) \<and>
   jpg_files done_fs = [''a.JPG''] \<and>
   path_exists done_fs (THUMBS_DIR, ''a.JPG'') \<and>
   read_file (fst (main_generate_thumbs pillow done_fs)) (THUMBS_DIR, ''a.JPG'') = Some [9, 9] \<and>
   Skipped ''a.JPG'' \<in> set (snd (main_generate_thumbs pillow done_fs)) \<and>
   main_generate_thumbs pillow done_fs =
     (mkdir (mkdir done_fs IMAGES_DIR) THUMBS_DIR, [Found 1, Skipped ''a.JPG'', Done_thumbs])"
proof -
  have files: "jpg_files done_fs = [''a.JPG'']" by code_simp
  have h1: "read_file done_fs (THUMBS_DIR, ''a.JPG'') = Some [9, 9]" by code_simp
  have h2: "path_exists done_fs (THUMBS_DIR, ''a.JPG'')" by code_simp
  have h3: "\<forall>name \<in> set (jpg_files done_fs). path_exists done_fs (THUMBS_DIR, name)"
    using h2 by (simp add: files)
  show ?thesis
    using thumbnails_never_overwritten [of done_fs pillow] h1 h2 h3
    by (simp add: files read_file_mkdir)
qed

text \<open>
  \<^bold>\<open>C6\<close> (amended).  The specification's example has a 4000 by 3000 file with orientation 6
  saved as 3000 by 2250.  Orientation 6 exchanges the sides, so the upright image is 3000 wide
  and 4000 tall, and the script saves 2250 by 3000.  What holds: whenever the web resizer
  processes a file without error, the geometry is computed from the image returned by the
  orientation step, the image encoded is that image or its resized copy, the encoder is called
  with empty EXIF, and its output is what the file holds afterwards; an upright image of 3000 by
  4000 is resized to 2250 by 3000.
\<close>

theorem orientation_applied_then_exif_stripped:
  assumes "open_path lib s p = Inr opened" and "Image_copy lib opened = Inr copied"
    and "exif_transpose lib copied = Inr (Some img)"
    and "resize_for_web lib s p MAX_DIMENSION QUALITY = (s', evs)"
    and "\<forall>e. evs \<noteq> [Error_processing (snd p) e]"
  shows "(\<exists>out b.
      (if max (width img) (height img) \<le> MAX_DIMENSION then out = img
       else \<exists>new_size. web_size (width img) (height img) MAX_DIMENSION = Inr new_size \<and>
              Image_resize lib img new_size LANCZOS = Inr out) \<and>
      Image_save lib out \<lparr>quality = 80, optimize = True, exif_bytes = Some []\<rparr> = Encoded b \<and>
      read_file s' p = Some b) \<and>
    (width img = 3000 \<longrightarrow> height img = 4000 \<longrightarrow>
       web_size (width img) (height img) MAX_DIMENSION = Inr (2250, 3000))"
proof -
  have example: "web_size 3000 4000 MAX_DIMENSION = Inr (2250, 3000)" by code_simp
  have body: "\<exists>r. resize_body lib s p MAX_DIMENSION QUALITY = Inr r"
    using assms(4,5) by (cases "resize_body lib s p MAX_DIMENSION QUALITY")
      (auto simp: resize_for_web_def)
  then have body': "resize_body lib s p MAX_DIMENSION QUALITY = Inr (s', evs)"
    using assms(4) by (auto simp: resize_for_web_def)
  have "\<exists>out b.
      (if max (width img) (height img) \<le> MAX_DIMENSION then out = img
       else \<exists>new_size. web_size (width img) (height img) MAX_DIMENSION = Inr new_size \<and>
              Image_resize lib img new_size LANCZOS = Inr out) \<and>
      Image_save lib out \<lparr>quality = 80, optimize = True, exif_bytes = Some []\<rparr> = Encoded b \<and>
      read_file s' p = Some b"
  proof (cases "max (width img) (height img) \<le> MAX_DIMENSION")
    case True
    then have small: "(max (width img) (height img) \<le> MAX_DIMENSION) = True" by simp
    show ?thesis
      using body' assms(1-3)
      by (auto simp: resize_body_def web_save_def small QUALITY_def
          simp del: max.bounded_iff split: sum.splits option.splits dest!: save_path_written)
  next
    case False
    then have large: "(max (width img) (height img) \<le> MAX_DIMENSION) = False" by simp
    show ?thesis
      using body' assms(1-3)
      by (auto simp: resize_body_def web_save_def large QUALITY_def
          simp del: max.bounded_iff split: sum.splits option.splits dest!: save_path_written)
  qed
  then show ?thesis using example by auto
qed

theorem orientation_applied_then_exif_stripped_witness:
  "open_path pillow example_fs (IMAGES_DIR, ''b.jpg'') =
     Inr \<lparr>width = 4000, height = 3000, mode = ''RGB'', exif = [(274, 6)]\<rparr> \<and>
   Image_copy pillow \<lparr>width = 4000, height = 3000, mode = ''RGB'', exif = [(274, 6)]\<rparr> =
     Inr \<lparr>width = 4000, height = 3000, mode = ''RGB'', exif = [(274, 6)]\<rparr> \<and>
   exif_transpose pillow \<lparr>width = 4000, height = 3000, mode = ''RGB'', exif = [(274, 6)]\<rparr> =
     Inr (Some \<lparr>width = 3000, height = 4000, mode = ''RGB'', exif = []\<rparr>) \<and>
   (\<forall>e. snd (resize_for_web pillow example_fs (IMAGES_DIR, ''b.jpg'') MAX_DIMENSION QUALITY)
      \<noteq> [Error_processing ''b.jpg'' e]) \<and>
   (\<exists>out b.
      (\<exists>new_size. web_size 3000 4000 MAX_DIMENSION = Inr new_size \<and>
         Image_resize pillow \<lparr>width = 3000, height = 4000, mode = ''RGB'', exif = []\<rparr>
           new_size LANCZOS = Inr out) \<and>
      Image_save pillow out \<lparr>quality = 80, optimize = True, exif_bytes = Some []\<rparr> =
        Encoded b \<and>
      read_file (fst (resize_for_web pillow example_fs (IMAGES_DIR, ''b.jpg'')
                       MAX_DIMENSION QUALITY)) (IMAGES_DIR, ''b.jpg'') = Some b) \<and>
   web_size 3000 4000 MAX_DIMENSION = Inr (2250, 3000)"
proof -
  have h1: "open_path pillow example_fs (IMAGES_DIR, ''b.jpg'') =
     Inr \<lparr>width = 4000, height = 3000, mode = ''RGB'', exif = [(274, 6)]\<rparr>" by code_simp
  have h2: "Image_copy pillow \<lparr>width = 4000, height = 3000, mode = ''RGB'', exif = [(274, 6)]\<rparr> =
     Inr \<lparr>width = 4000, height = 3000, mode = ''RGB'', exif = [(274, 6)]\<rparr>" by code_simp
  have h3: "exif_transpose pillow
     \<lparr>width = 4000, height = 3000, mode = ''RGB'', exif = [(274, 6)]\<rparr> =
     Inr (Some \<lparr>width = 3000, height = 4000, mode = ''RGB'', exif = []\<rparr>)" by code_simp
  have h4: "resize_for_web pillow example_fs (IMAGES_DIR, ''b.jpg'') MAX_DIMENSION QUALITY =
     (fst (resize_for_web pillow example_fs (IMAGES_DIR, ''b.jpg'') MAX_DIMENSION QUALITY),
      snd (resize_for_web pillow example_fs (IMAGES_DIR, ''b.jpg'') MAX_DIMENSION QUALITY))"
    by simp
  have evs: "snd (resize_for_web pillow example_fs (IMAGES_DIR, ''b.jpg'') MAX_DIMENSION QUALITY)
     = [Resized ''b.jpg'' 3000 4000 2250 3000]" by code_simp
  have h5: "\<forall>e. snd (resize_for_web pillow example_fs (IMAGES_DIR, ''b.jpg'')
      MAX_DIMENSION QUALITY) \<noteq> [Error_processing (snd (IMAGES_DIR, ''b.jpg'')) e]"
    by (simp add: evs)
  have large: "\<not> max (3000 :: int) 4000 \<le> MAX_DIMENSION" by (simp add: MAX_DIMENSION_def)
  show ?thesis
    using h1 h2 h3 h5 large orientation_applied_then_exif_stripped [OF h1 h2 h3 h4 h5]
    by auto
qed

theorem rotated_photo_is_saved_portrait:
  "open_path pillow example_fs (IMAGES_DIR, ''b.jpg'') =
     Inr \<lparr>width = 4000, height = 3000, mode = ''RGB'', exif = [(274, 6)]\<rparr> \<and>
   snd (resize_for_web pillow example_fs (IMAGES_DIR, ''b.jpg'') MAX_DIMENSION QUALITY) =
     [Resized ''b.jpg'' 3000 4000 2250 3000] \<and>
   map_option pillow_open
     (read_file (fst (resize_for_web pillow example_fs (IMAGES_DIR, ''b.jpg'')
                       MAX_DIMENSION QUALITY)) (IMAGES_DIR, ''b.jpg'')) =
     Some (Inr \<lparr>width = 2250, height = 3000, mode = ''RGB'', exif = []\<rparr>) \<and>
   map_option pillow_open
     (read_file (fst (resize_for_web pillow example_fs (IMAGES_DIR, ''b.jpg'')
                       MAX_DIMENSION QUALITY)) (IMAGES_DIR, ''b.jpg'')) \<noteq>
     Some (Inr \<lparr>width = 3000, height = 2250, mode = ''RGB'', exif = []\<rparr>)"
  by code_simp




text \<open>
  \<^bold>\<open>C8\<close> (amended).  The specification has both scripts create their output directory when
  no JPEG file is found.  The web resizer returns before it creates \<open>images_backup/\<close>.  What
  holds: when \<open>images/\<close> exists and holds no JPEG file, both scripts report that no files were
  found and write no file; the thumbnail generator creates \<open>thumbs/\<close> if absent and leaves it
  as it was otherwise, and the web resizer leaves the whole file system unchanged.
\<close>

theorem no_jpeg_files_no_writes:
  assumes "dir_exists s IMAGES_DIR" and "jpg_files s = []"
  shows "main_resize_for_web lib s = (s, [No_files_found]) \<and>
    (\<exists>s'. main_generate_thumbs lib s = (s', [No_files_found]) \<and>
       s' IMAGES_DIR = s IMAGES_DIR \<and>
       s' THUMBS_DIR = Some (case s THUMBS_DIR of None \<Rightarrow> [] | Some al \<Rightarrow> al) \<and>
       s' BACKUP_DIR = s BACKUP_DIR)"
proof -
  obtain al where al: "s IMAGES_DIR = Some al" using assms(1) by (auto simp: dir_exists_def)
  have "main_resize_for_web lib s = (s, [No_files_found])"
    using assms by (simp add: main_resize_for_web_def)
  moreover have "main_generate_thumbs lib s =
      (mkdir (mkdir s IMAGES_DIR) THUMBS_DIR, [No_files_found])"
    using assms(2) by (rule main_generate_thumbs_no_files)
  moreover have "mkdir (mkdir s IMAGES_DIR) THUMBS_DIR IMAGES_DIR = s IMAGES_DIR"
    using al by (simp add: mkdir_other mkdir_same)
  moreover have "mkdir (mkdir s IMAGES_DIR) THUMBS_DIR THUMBS_DIR =
      Some (case s THUMBS_DIR of None \<Rightarrow> [] | Some al \<Rightarrow> al)"
    by (simp add: mkdir_other mkdir_same)
  moreover have "mkdir (mkdir s IMAGES_DIR) THUMBS_DIR BACKUP_DIR = s BACKUP_DIR"
    by (simp add: mkdir_other)
  ultimately show ?thesis by simp
qed

theorem no_jpeg_files_no_writes_witness:
  "dir_exists empty_source IMAGES_DIR \<and> jpg_files empty_source = [] \<and>
   main_resize_for_web pillow empty_source = (empty_source, [No_files_found]) \<and>
    (\<exists>s'. main_generate_thumbs pillow empty_source = (s', [No_files_found]) \<and>
       s' IMAGES_DIR = empty_source IMAGES_DIR \<and>
       s' THUMBS_DIR = Some (case empty_source THUMBS_DIR of None \<Rightarrow> [] | Some al \<Rightarrow> al) \<and>
       s' BACKUP_DIR = empty_source BACKUP_DIR)"
proof -
  have h1: "dir_exists empty_source IMAGES_DIR" by code_simp
  have h2: "jpg_files empty_source = []" by code_simp
  show ?thesis using h1 h2 no_jpeg_files_no_writes [OF h1 h2, of pillow] by (intro conjI) simp_all
qed

theorem backup_dir_not_created_without_files:
  "dir_exists empty_source IMAGES_DIR \<and> jpg_files empty_source = [] \<and>
   \<not> dir_exists empty_source BACKUP_DIR \<and>
   \<not> dir_exists (fst (main_resize_for_web pillow empty_source)) BACKUP_DIR"
  by code_simp

text \<open>
  \<^bold>\<open>C9\<close>.  When \<open>images/\<close> does not exist, the web resizer prints an error and returns with
  the file system unchanged, while the thumbnail generator creates \<open>images/\<close> (empty) and
  \<open>thumbs/\<close> if absent and then reports that no files were found.
\<close>

theorem missing_source_dir_asymmetry:
  assumes "\<not> dir_exists s IMAGES_DIR"
  shows "main_resize_for_web lib s = (s, [Images_dir_missing]) \<and>
    (\<exists>s'. main_generate_thumbs lib s = (s', [No_files_found]) \<and>
       s' IMAGES_DIR = Some [] \<and>
       s' THUMBS_DIR = Some (case s THUMBS_DIR of None \<Rightarrow> [] | Some al \<Rightarrow> al) \<and>
       s' BACKUP_DIR = s BACKUP_DIR)"
proof -
  have none: "s IMAGES_DIR = None" using assms by (simp add: dir_exists_def)
  have "main_resize_for_web lib s = (s, [Images_dir_missing])"
    using assms by (simp add: main_resize_for_web_def)
  moreover have "main_generate_thumbs lib s =
      (mkdir (mkdir s IMAGES_DIR) THUMBS_DIR, [No_files_found])"
    using assms by (intro main_generate_thumbs_no_files jpg_files_no_dir)
  moreover have "mkdir (mkdir s IMAGES_DIR) THUMBS_DIR IMAGES_DIR = Some []"
    using none by (simp add: mkdir_other mkdir_same)
  moreover have "mkdir (mkdir s IMAGES_DIR) THUMBS_DIR THUMBS_DIR =
      Some (case s THUMBS_DIR of None \<Rightarrow> [] | Some al \<Rightarrow> al)"
    by (simp add: mkdir_other mkdir_same)
  moreover have "mkdir (mkdir s IMAGES_DIR) THUMBS_DIR BACKUP_DIR = s BACKUP_DIR"
    by (simp add: mkdir_other)
  ultimately show ?thesis by simp
qed

theorem missing_source_dir_asymmetry_witness:
  "\<not> dir_exists no_dirs IMAGES_DIR \<and>
   main_resize_for_web pillow no_dirs = (no_dirs, [Images_dir_missing]) \<and>
    (\<exists>s'. main_generate_thumbs pillow no_dirs = (s', [No_files_found]) \<and>
       s' IMAGES_DIR = Some [] \<and>
       s' THUMBS_DIR = Some (case no_dirs THUMBS_DIR of None \<Rightarrow> [] | Some al \<Rightarrow> al) \<and>
       s' BACKUP_DIR = no_dirs BACKUP_DIR)"
proof -
  have h: "\<not> dir_exists no_dirs IMAGES_DIR" by (simp add: dir_exists_def no_dirs_def)
  show ?thesis using h missing_source_dir_asymmetry [OF h, of pillow] by (intro conjI) simp_all
qed

text \<open>
  \<^bold>\<open>C10\<close>.  For every decoded image with \<open>width / height < 1 / 250\<close> (height below
  \<open>2 ^ 31\<close>), the thumbnail generator computes the width 0 and passes \<open>(0, 250)\<close> to the
  resize operation without any guard; if the library raises, the handler of the file logs the
  error and nothing is written.
\<close>

theorem very_tall_image_width_zero:
  assumes "open_path lib s image_path = Inr img"
    and "0 \<le> width img" and "0 < height img" and "height img < 2 ^ 31"
    and "250 * width img < height img"
  shows "thumbnail_size img THUMBNAIL_HEIGHT = Inr (0, 250) \<and>
    generate_thumbnail lib s image_path thumb_path THUMBNAIL_HEIGHT =
      (case Image_resize lib img (0, 250) LANCZOS of
         Inl e \<Rightarrow> (s, [Error_processing (snd image_path) e])
       | Inr img_resized \<Rightarrow>
           (case save_path lib s img_resized thumb_path
                   \<lparr>quality = 85, optimize = True, exif_bytes = None\<rparr> of
              Inl (e, s1) \<Rightarrow> (s1, [Error_processing (snd image_path) e])
            | Inr s' \<Rightarrow> (s', [Generated (snd thumb_path)])))"
proof -
  define n where
    "n = int_of_float (fmul (of_int 250) (fl (of_int (width img) / of_int (height img))))"
  have small: "3 * (250 * width img + height img) \<le> 2 ^ 53" using assms(4,5) by simp
  have "0 \<le> n" "n * height img \<le> 250 * width img"
    unfolding n_def using scale_trunc_bounds(1,2) [OF assms(2,3) _ small] by simp_all
  then have "n * height img < 1 * height img" "0 \<le> n" using assms(5) by simp_all
  then have "n = 0" using assms(3) by (simp only: mult_less_cancel_right) simp
  then have sz: "thumbnail_size img THUMBNAIL_HEIGHT = Inr (0, 250)"
    unfolding n_def THUMBNAIL_HEIGHT_def using assms(3) by (simp add: thumbnail_size_eq)
  show ?thesis using sz generate_thumbnail_opened [OF assms(1) sz] by simp
qed

theorem very_tall_image_width_zero_witness:
  "open_path pillow example_fs (IMAGES_DIR, ''tall.jpg'') =
     Inr \<lparr>width = 3, height = 1000, mode = ''RGB'', exif = []\<rparr> \<and>
   (250 * 3 :: int) < 1000 \<and>
   thumbnail_size \<lparr>width = 3, height = 1000, mode = ''RGB'', exif = []\<rparr> THUMBNAIL_HEIGHT =
     Inr (0, 250) \<and>
   generate_thumbnail pillow example_fs (IMAGES_DIR, ''tall.jpg'') (THUMBS_DIR, ''tall.jpg'')
       THUMBNAIL_HEIGHT =
     (example_fs, [Error_processing ''tall.jpg'' ''height and width must be > 0''])"
proof -
  have h: "open_path pillow example_fs (IMAGES_DIR, ''tall.jpg'') =
     Inr \<lparr>width = 3, height = 1000, mode = ''RGB'', exif = []\<rparr>" by code_simp
  have r: "Image_resize pillow \<lparr>width = 3, height = 1000, mode = ''RGB'', exif = []\<rparr>
      (0, 250) LANCZOS = Inl ''height and width must be > 0''" by code_simp
  show ?thesis
    using h very_tall_image_width_zero [OF h, of "(THUMBS_DIR, ''tall.jpg'')"] by (simp add: r)
qed

end
